theory Spec2Isabelle
  imports Main "HOL-Library.Multiset" "HOL-Library.Char_ord" "HOL-Library.List_Lexorder"
begin

section \<open>JavaScript values\<close>

text \<open>
  The two widgets are JavaScript classes. Their records are plain objects whose
  properties hold primitives, and the code applies the dynamically typed operators
  \<^verbatim>\<open>||\<close>, \<^verbatim>\<open>!==\<close>, \<^verbatim>\<open>-\<close>, \<^verbatim>\<open>?:\<close> and string concatenation to them, so the
  model keeps the dynamic typing: a property holds a \<open>jsval\<close>.

  Numbers are the integers, NaN and the two infinities: the order field is an integer
  field, and \<^verbatim>\<open>parseInt\<close> returns an integer, NaN or an infinity. Fractions and the
  sign of zero are outside the model. An integer of the model need not be a value of
  the engine's 64-bit floating point; where the engine rounds, the model says so (see
  \<open>integerNumber\<close> and \<open>number_sub\<close>). Strings are lists of code units below 256, which
  is exact for text in ASCII and Latin-1.
\<close>

datatype number = Num int | NaN | PosInfinity | NegInfinity

datatype jsval = Undefined | Null | JBool bool | JNumber number | JStr string

abbreviation JNum :: "int \<Rightarrow> jsval" where
  "JNum n \<equiv> JNumber (Num n)"

text \<open>An object: reading a property the object does not have gives \<^verbatim>\<open>undefined\<close>.\<close>

type_synonym jsobj = "string \<Rightarrow> jsval"

definition emptyObject :: jsobj where
  "emptyObject = (\<lambda>_. Undefined)"

datatype error = TypeError

text \<open>
  What the host platform supplies and the source only calls:
  \<^verbatim>\<open>String.prototype.localeCompare\<close> (a collation chosen by the browser's locale), the
  conversion of a string to a number, and the Number value that stands for a
  mathematical integer beyond \<open>2 ^ 53\<close> (the nearest value of the floating point, or
  an infinity, with the approximation the standard allows an engine beyond twenty
  digits). All three are parameters of the model.
\<close>

record host =
  localeCompare :: "string \<Rightarrow> string \<Rightarrow> int"
  StringToNumber :: "string \<Rightarrow> number"
  NumberOfInteger :: "int \<Rightarrow> number"

fun truthy :: "jsval \<Rightarrow> bool" where
  "truthy Undefined = False"
| "truthy Null = False"
| "truthy (JBool b) = b"
| "truthy (JNumber (Num n)) = (n \<noteq> 0)"
| "truthy (JNumber NaN) = False"
| "truthy (JNumber PosInfinity) = True"
| "truthy (JNumber NegInfinity) = True"
| "truthy (JStr s) = (s \<noteq> [])"

text \<open>\<^verbatim>\<open>a || b\<close>\<close>

definition js_or :: "jsval \<Rightarrow> jsval \<Rightarrow> jsval" where
  "js_or a b = (if truthy a then a else b)"

text \<open>\<^verbatim>\<open>a === b\<close> on primitives: equal values of one type, and NaN equals nothing.\<close>

definition strict_eq :: "jsval \<Rightarrow> jsval \<Rightarrow> bool" where
  "strict_eq a b = (a = b \<and> a \<noteq> JNumber NaN)"

fun ToNumber :: "host \<Rightarrow> jsval \<Rightarrow> number" where
  "ToNumber h Undefined = NaN"
| "ToNumber h Null = Num 0"
| "ToNumber h (JBool b) = Num (if b then 1 else 0)"
| "ToNumber h (JNumber n) = n"
| "ToNumber h (JStr s) = StringToNumber h s"

text \<open>
  \<^verbatim>\<open>a - b\<close> on numbers. The difference of two integers is exact here, where the engine
  rounds it to the floating point; the rounding keeps the sign, and the sort below reads
  only the sign.
\<close>

fun number_sub :: "number \<Rightarrow> number \<Rightarrow> number" where
  "number_sub (Num a) (Num b) = Num (a - b)"
| "number_sub NaN _ = NaN"
| "number_sub _ NaN = NaN"
| "number_sub PosInfinity PosInfinity = NaN"
| "number_sub NegInfinity NegInfinity = NaN"
| "number_sub PosInfinity _ = PosInfinity"
| "number_sub NegInfinity _ = NegInfinity"
| "number_sub (Num a) PosInfinity = NegInfinity"
| "number_sub (Num a) NegInfinity = PosInfinity"

definition js_sub :: "host \<Rightarrow> jsval \<Rightarrow> jsval \<Rightarrow> number" where
  "js_sub h a b = number_sub (ToNumber h a) (ToNumber h b)"

subsection \<open>Numbers and strings\<close>

definition digit_char :: "nat \<Rightarrow> char" where
  "digit_char d = char_of (48 + d)"

fun nat_to_string :: "nat \<Rightarrow> string" where
  "nat_to_string n =
     (if n < 10 then [digit_char n] else nat_to_string (n div 10) @ [digit_char (n mod 10)])"

declare nat_to_string.simps [simp del]

definition int_to_string :: "int \<Rightarrow> string" where
  "int_to_string i = (if i < 0 then CHR ''-'' # nat_to_string (nat (- i)) else nat_to_string (nat i))"

text \<open>
  \<^verbatim>\<open>ToString\<close>. The decimal digits are what it gives for an integer below \<open>10 ^ 21\<close>;
  the source converts no number to a string for the records of the data model.
\<close>

fun ToString :: "jsval \<Rightarrow> string" where
  "ToString Undefined = ''undefined''"
| "ToString Null = ''null''"
| "ToString (JBool b) = (if b then ''true'' else ''false'')"
| "ToString (JNumber (Num n)) = int_to_string n"
| "ToString (JNumber NaN) = ''NaN''"
| "ToString (JNumber PosInfinity) = ''Infinity''"
| "ToString (JNumber NegInfinity) = ''-Infinity''"
| "ToString (JStr s) = s"

text \<open>
  \<^verbatim>\<open>parseInt(string, 10)\<close>: leading white space is skipped, one sign is read, then the
  longest run of decimal digits; no digit gives NaN. The white space below 256 is the
  tab, the line feed, the vertical tab, the form feed, the carriage return, the space
  and the no-break space. The integer that was read is itself the result up to
  \<open>2 ^ 53\<close>, where the floating point holds every integer; beyond, the result is the
  host's Number value for it.
\<close>

definition is_white_space :: "char \<Rightarrow> bool" where
  "is_white_space c = (c \<in> set [char_of (9::nat), char_of (10::nat), char_of (11::nat),
     char_of (12::nat), char_of (13::nat), CHR '' '', char_of (160::nat)])"

definition is_digit :: "char \<Rightarrow> bool" where
  "is_digit c = (48 \<le> (of_char c :: nat) \<and> (of_char c :: nat) \<le> 57)"

definition digit_value :: "char \<Rightarrow> int" where
  "digit_value c = int (of_char c) - 48"

definition digits_value :: "string \<Rightarrow> int" where
  "digits_value z = foldl (\<lambda>acc c. 10 * acc + digit_value c) 0 z"

definition leadingInteger :: "string \<Rightarrow> int option" where
  "leadingInteger inputString =
     (let s = dropWhile is_white_space inputString;
          sign = (if s \<noteq> [] \<and> hd s = CHR ''-'' then - 1 else 1 :: int);
          s' = (if s \<noteq> [] \<and> (hd s = CHR ''+'' \<or> hd s = CHR ''-'') then tl s else s);
          z = takeWhile is_digit s'
      in if z = [] then None else Some (sign * digits_value z))"

definition integerNumber :: "host \<Rightarrow> int \<Rightarrow> number" where
  "integerNumber h n = (if \<bar>n\<bar> \<le> 2 ^ 53 then Num n else NumberOfInteger h n)"

definition parseInt10 :: "host \<Rightarrow> string \<Rightarrow> number" where
  "parseInt10 h inputString =
     (case leadingInteger inputString of
        None \<Rightarrow> NaN
      | Some n \<Rightarrow> integerNumber h n)"

definition parseInt :: "host \<Rightarrow> jsval \<Rightarrow> number" where
  "parseInt h v = parseInt10 h (ToString v)"

subsection \<open>Array.prototype.sort\<close>

text \<open>
  The sort is stable and calls the comparator on pairs of elements; a comparator result
  that is not positive keeps the earlier element first, and NaN counts as 0. An exception
  thrown by the comparator leaves the sort. For a consistent comparator every conforming
  engine gives the result of this insertion sort; for an inconsistent one the standard
  leaves the order to the engine, and the model fixes it to this one. The pairs that are
  compared are this sort's own as well: an engine may compare other pairs, which shows
  only where the comparator throws or is inconsistent. The properties below that speak
  of an order are stated for consistent comparators that do not throw.
\<close>

fun keeps_order :: "number \<Rightarrow> bool" where
  "keeps_order (Num v) = (v \<le> 0)"
| "keeps_order NaN = True"
| "keeps_order PosInfinity = False"
| "keeps_order NegInfinity = True"

fun sort_insert :: "('a \<Rightarrow> 'a \<Rightarrow> error + number) \<Rightarrow> 'a \<Rightarrow> 'a list \<Rightarrow> error + 'a list" where
  "sort_insert comparefn x [] = Inr [x]"
| "sort_insert comparefn x (y # ys) =
     (case comparefn x y of
        Inl e \<Rightarrow> Inl e
      | Inr v \<Rightarrow>
          if keeps_order v then Inr (x # y # ys)
          else (case sort_insert comparefn x ys of
                  Inl e \<Rightarrow> Inl e
                | Inr zs \<Rightarrow> Inr (y # zs)))"

fun Array_sort :: "('a \<Rightarrow> 'a \<Rightarrow> error + number) \<Rightarrow> 'a list \<Rightarrow> error + 'a list" where
  "Array_sort comparefn [] = Inr []"
| "Array_sort comparefn (x # xs) =
     (case Array_sort comparefn xs of
        Inl e \<Rightarrow> Inl e
      | Inr ys \<Rightarrow> sort_insert comparefn x ys)"

text \<open>\<^verbatim>\<open>Array.prototype.map\<close> with a callback that can throw.\<close>

fun Array_map :: "('a \<Rightarrow> error + 'b) \<Rightarrow> 'a list \<Rightarrow> error + 'b list" where
  "Array_map f [] = Inr []"
| "Array_map f (x # xs) =
     (case f x of
        Inl e \<Rightarrow> Inl e
      | Inr y \<Rightarrow> (case Array_map f xs of Inl e \<Rightarrow> Inl e | Inr ys \<Rightarrow> Inr (y # ys)))"

text \<open>
  \<^verbatim>\<open>a.localeCompare(b)\<close>: reading the method off \<^verbatim>\<open>undefined\<close> or \<^verbatim>\<open>null\<close> throws, a
  boolean or a number has no such method (calling it throws), and the argument is
  converted to a string.
\<close>

definition localeCompare_call :: "host \<Rightarrow> jsval \<Rightarrow> jsval \<Rightarrow> error + number" where
  "localeCompare_call h a b =
     (case a of
        JStr s \<Rightarrow> Inr (Num (localeCompare h s (ToString b)))
      | _ \<Rightarrow> Inl TypeError)"

section \<open>The settings table: serialProcessSetup.js\<close>

subsection \<open>Maps with insertion order\<close>

text \<open>
  A JavaScript \<^verbatim>\<open>Map\<close> keeps its keys in insertion order; \<^verbatim>\<open>set\<close> on a key that is
  present replaces the value where it stands.
\<close>

fun Map_set :: "'k \<Rightarrow> 'v \<Rightarrow> ('k \<times> 'v) list \<Rightarrow> ('k \<times> 'v) list" where
  "Map_set k v [] = [(k, v)]"
| "Map_set k v ((k', v') # m) = (if k' = k then (k, v) # m else (k', v') # Map_set k v m)"

definition Map_values :: "('k \<times> 'v) list \<Rightarrow> 'v list" where
  "Map_values m = map snd m"

subsection \<open>processGroupedData\<close>

record group =
  groupName :: jsval
  processes :: "jsobj list"
  allActive :: bool
  headerClass :: string
  statusText :: string

text \<open>\<^verbatim>\<open>process.Group__c || 'Ungrouped'\<close>\<close>

definition groupNameOf :: "jsobj \<Rightarrow> jsval" where
  "groupNameOf process = js_or (process ''Group__c'') (JStr ''Ungrouped'')"

text \<open>\<^verbatim>\<open>{...process, statusClass: process.Active__c ? ... : ...}\<close>\<close>

definition withStatusClass :: "jsobj \<Rightarrow> jsobj" where
  "withStatusClass process =
     process(''statusClass'' := JStr (if truthy (process ''Active__c'')
        then ''process-box active-process'' else ''process-box inactive-process''))"

text \<open>
  One round of the \<^verbatim>\<open>forEach\<close>: a group name the map does not have is set to an empty
  array (at the end of the map), and the entry is pushed onto the array of its name.
\<close>

fun groupMap_push :: "jsval \<Rightarrow> jsobj \<Rightarrow> (jsval \<times> jsobj list) list \<Rightarrow> (jsval \<times> jsobj list) list" where
  "groupMap_push name entry [] = [(name, [entry])]"
| "groupMap_push name entry ((name', arr) # m) =
     (if name' = name then (name', arr @ [entry]) # m
      else (name', arr) # groupMap_push name entry m)"

definition groupMap_of :: "jsobj list \<Rightarrow> (jsval \<times> jsobj list) list" where
  "groupMap_of processData =
     foldl (\<lambda>groupMap process. groupMap_push (groupNameOf process) (withStatusClass process) groupMap)
       [] processData"

text \<open>The comparator of the sort within a group.\<close>

definition compareProcesses :: "host \<Rightarrow> jsobj \<Rightarrow> jsobj \<Rightarrow> error + number" where
  "compareProcesses h a b =
     (if \<not> strict_eq (a ''Order__c'') (b ''Order__c'')
      then Inr (js_sub h (js_or (a ''Order__c'') (JNum 999)) (js_or (b ''Order__c'') (JNum 999)))
      else localeCompare_call h (a ''Name'') (b ''Name''))"

definition compareGroups :: "host \<Rightarrow> group \<Rightarrow> group \<Rightarrow> error + number" where
  "compareGroups h a b = localeCompare_call h (groupName a) (groupName b)"

definition isActive :: "jsobj \<Rightarrow> bool" where
  "isActive process = truthy (process ''Active__c'')"

definition makeGroup :: "host \<Rightarrow> jsval \<times> jsobj list \<Rightarrow> error + group" where
  "makeGroup h entry =
     (case Array_sort (compareProcesses h) (snd entry) of
        Inl e \<Rightarrow> Inl e
      | Inr sortedProcesses \<Rightarrow>
          let allActive = list_all isActive sortedProcesses;
              allInactive = list_all (\<lambda>process. \<not> isActive process) sortedProcesses;
              activeCount = length (filter isActive sortedProcesses);
              totalCount = length sortedProcesses;
              headerClass =
                (if allActive then ''group-header active-group-header''
                 else if allInactive then ''group-header inactive-group-header''
                 else ''group-header mixed-group-header'')
          in Inr \<lparr> groupName = fst entry,
                   processes = sortedProcesses,
                   allActive = allActive,
                   headerClass = headerClass,
                   statusText = nat_to_string activeCount @ ''/'' @ nat_to_string totalCount @ '' Active'' \<rparr>)"

text \<open>The value \<^verbatim>\<open>processGroupedData\<close> assigns to \<^verbatim>\<open>groupedProcessData\<close>, or what it throws.\<close>

definition groupedData :: "host \<Rightarrow> jsobj list \<Rightarrow> error + group list" where
  "groupedData h processData =
     (if processData = [] then Inr []
      else (case Array_map (makeGroup h) (groupMap_of processData) of
              Inl e \<Rightarrow> Inl e
            | Inr groups \<Rightarrow> Array_sort (compareGroups h) groups))"

subsection \<open>The component and its handlers\<close>

record toast =
  title :: string
  message :: string
  variant :: string

text \<open>A rejection or a wire error: \<^verbatim>\<open>error.body\<close> may be missing.\<close>

record js_error =
  error_body :: "jsobj option"

record wire_result =
  result_data :: "jsobj list option"
  result_error :: "js_error option"

text \<open>
  The tracked fields of the component, and the trace of what it sent out: the toasts it
  dispatched and the arguments of its \<^verbatim>\<open>updateProcessSettings\<close> calls, oldest first.
\<close>

record state =
  processData :: "jsobj list"
  originalData :: "jsobj list"
  groupedProcessData :: "group list"
  changedRecords :: "(jsval \<times> jsobj) list"
  isLoading :: bool
  wiredProcessResult :: "wire_result option"
  toasts :: "toast list"
  persistCalls :: "jsobj list list"

datatype completion = Normal | Throw error

definition initial :: state where
  "initial = \<lparr> processData = [], originalData = [], groupedProcessData = [],
     changedRecords = [], isLoading = False, wiredProcessResult = None,
     toasts = [], persistCalls = [] \<rparr>"

definition hasChanges :: "state \<Rightarrow> bool" where
  "hasChanges s = (length (changedRecords s) > 0)"

definition showToast :: "string \<Rightarrow> string \<Rightarrow> string \<Rightarrow> state \<Rightarrow> state" where
  "showToast t m v s = s\<lparr>toasts := toasts s @ [\<lparr> title = t, message = m, variant = v \<rparr>]\<rparr>"

definition getRowClass :: "jsval \<Rightarrow> string" where
  "getRowClass active = (if truthy active then ''tr active'' else ''tr inactive'')"

definition processGroupedData :: "host \<Rightarrow> state \<Rightarrow> completion \<times> state" where
  "processGroupedData h s =
     (case groupedData h (processData s) of
        Inl e \<Rightarrow> (Throw e, s)
      | Inr groups \<Rightarrow> (Normal, s\<lparr>groupedProcessData := groups\<rparr>))"

text \<open>\<^verbatim>\<open>{...record, Id: record.Id || record.Name, rowClass: getRowClass(record.Active__c)}\<close>\<close>

definition workingRecord :: "jsobj \<Rightarrow> jsobj" where
  "workingRecord record =
     record(''Id'' := js_or (record ''Id'') (record ''Name''),
            ''rowClass'' := JStr (getRowClass (record ''Active__c'')))"

definition wiredProcess :: "host \<Rightarrow> wire_result \<Rightarrow> state \<Rightarrow> completion \<times> state" where
  "wiredProcess h result s =
     (let s1 = s\<lparr>wiredProcessResult := Some result\<rparr> in
      case result_data result of
        Some records \<Rightarrow>
          (let s2 = s1\<lparr>originalData := map (\<lambda>record. record) records,
                        processData := map workingRecord records\<rparr>
           in case processGroupedData h s2 of
                (Throw e, s3) \<Rightarrow> (Throw e, s3)
              | (Normal, s3) \<Rightarrow> (Normal, s3\<lparr>changedRecords := []\<rparr>))
      | None \<Rightarrow>
          (case result_error result of
             Some err \<Rightarrow>
               (case error_body err of
                  None \<Rightarrow> (Throw TypeError, s1)
                | Some b \<Rightarrow>
                    (Normal, showToast ''Error''
                       (''Error loading process settings: '' @ ToString (b ''message'')) ''error'' s1))
           | None \<Rightarrow> (Normal, s1)))"

text \<open>The target of the input event that \<^verbatim>\<open>handleTableEdit\<close> reads.\<close>

record edit_event =
  dataset_id :: jsval
  dataset_field :: string
  target_type :: string
  target_checked :: bool
  target_value :: string

definition editedValue :: "host \<Rightarrow> edit_event \<Rightarrow> jsval" where
  "editedValue h event =
     (let fieldValue = (if target_type event = ''checkbox'' then JBool (target_checked event)
                        else JStr (target_value event))
      in if dataset_field event = ''Order__c'' \<and> \<not> strict_eq fieldValue (JStr [])
         then JNumber (parseInt h fieldValue) else fieldValue)"

definition updatedRecord :: "string \<Rightarrow> jsval \<Rightarrow> jsobj \<Rightarrow> jsobj" where
  "updatedRecord fieldName fieldValue record =
     (let updated = record(fieldName := fieldValue)
      in if fieldName = ''Active__c'' then updated(''rowClass'' := JStr (getRowClass fieldValue))
         else updated)"

text \<open>
  The \<^verbatim>\<open>map\<close> over \<^verbatim>\<open>processData\<close>, whose callback also sets the staged snapshot of
  every record it updates.
\<close>

fun editRecords :: "jsval \<Rightarrow> string \<Rightarrow> jsval \<Rightarrow> jsobj list \<Rightarrow> (jsval \<times> jsobj) list
    \<Rightarrow> jsobj list \<times> (jsval \<times> jsobj) list" where
  "editRecords recordId fieldName fieldValue [] changed = ([], changed)"
| "editRecords recordId fieldName fieldValue (record # rest) changed =
     (if strict_eq (record ''Id'') recordId
      then (let updated = updatedRecord fieldName fieldValue record;
                (rest', changed') =
                  editRecords recordId fieldName fieldValue rest (Map_set recordId updated changed)
            in (updated # rest', changed'))
      else (let (rest', changed') = editRecords recordId fieldName fieldValue rest changed
            in (record # rest', changed')))"

definition handleTableEdit :: "host \<Rightarrow> edit_event \<Rightarrow> state \<Rightarrow> completion \<times> state" where
  "handleTableEdit h event s =
     (let (records, changed) =
            editRecords (dataset_id event) (dataset_field event) (editedValue h event)
              (processData s) (changedRecords s)
      in processGroupedData h (s\<lparr>processData := records, changedRecords := changed\<rparr>))"

text \<open>
  \<^verbatim>\<open>handleSaveChanges\<close> up to the call of \<^verbatim>\<open>updateProcessSettings\<close>, and the
  \<^verbatim>\<open>catch\<close> and \<^verbatim>\<open>finally\<close> callbacks that run when the promise is rejected.
\<close>

definition handleSaveChanges :: "state \<Rightarrow> state" where
  "handleSaveChanges s =
     (if length (changedRecords s) = 0 then showToast ''Info'' ''No changes to save'' ''info'' s
      else s\<lparr>isLoading := True,
             persistCalls := persistCalls s @ [Map_values (changedRecords s)]\<rparr>)"

definition saveRejected :: "js_error \<Rightarrow> state \<Rightarrow> completion \<times> state" where
  "saveRejected err s =
     (case error_body err of
        None \<Rightarrow> (Throw TypeError, s\<lparr>isLoading := False\<rparr>)
      | Some b \<Rightarrow>
          (Normal, (showToast ''Error'' (''Error updating records: '' @ ToString (b ''message''))
                      ''error'' s)\<lparr>isLoading := False\<rparr>))"

definition handleCancelChanges :: "host \<Rightarrow> state \<Rightarrow> completion \<times> state" where
  "handleCancelChanges h s =
     (let s1 = s\<lparr>processData := map workingRecord (originalData s), changedRecords := []\<rparr>
      in case processGroupedData h s1 of
           (Throw e, s2) \<Rightarrow> (Throw e, s2)
         | (Normal, s2) \<Rightarrow> (Normal, showToast ''Info'' ''Changes cancelled'' ''info'' s2))"

text \<open>
  A run of edits: an exception that leaves one handler does not stop the component
  from taking the next event.
\<close>

definition applyEdits :: "host \<Rightarrow> edit_event list \<Rightarrow> state \<Rightarrow> state" where
  "applyEdits h events s = foldl (\<lambda>s' event. snd (handleTableEdit h event s')) s events"

section \<open>The process variables: processVariables.js\<close>

record pv_state =
  serialEngineOn :: bool
  serialEngineTimestampDisplay :: string
  labelSerialEngineOn :: string
  labelSerialEngineTimestamp :: string
  editSerialEngineOn :: bool
  editSerialEngineTimestamp :: string
  rawSerialEngineTimestamp :: jsval

definition handleToggleChange :: "bool \<Rightarrow> pv_state \<Rightarrow> pv_state" where
  "handleToggleChange checked s = s\<lparr>editSerialEngineOn := checked\<rparr>"

definition handleTimestampChange :: "string \<Rightarrow> pv_state \<Rightarrow> pv_state" where
  "handleTimestampChange v s = s\<lparr>editSerialEngineTimestamp := v\<rparr>"

text \<open>
  \<^verbatim>\<open>handleSave\<close> up to its call of \<^verbatim>\<open>updateProcessVariables\<close>: the argument it sends.
  What it does with the answer goes through \<^verbatim>\<open>Date\<close> and the browser's time zone and
  is not modelled.
\<close>

record update_request =
  request_serialEngineOn :: bool
  request_serialEngineTimestampIso :: jsval

definition handleSave_tsIso :: "pv_state \<Rightarrow> jsval" where
  "handleSave_tsIso s =
     (if editSerialEngineTimestamp s \<noteq> []
      then (let tsIso = editSerialEngineTimestamp s
            in if length tsIso \<ge> 16 \<and> length tsIso < 19 then JStr (tsIso @ '':00'') else JStr tsIso)
      else Null)"

definition handleSave_request :: "pv_state \<Rightarrow> update_request" where
  "handleSave_request s =
     \<lparr> request_serialEngineOn = editSerialEngineOn s,
       request_serialEngineTimestampIso = handleSave_tsIso s \<rparr>"

text \<open>The form \<^verbatim>\<open>yyyy-MM-ddTHH:mm\<close>: in the pattern, \<open>d\<close> stands for a decimal digit.\<close>

fun matches_pattern :: "string \<Rightarrow> string \<Rightarrow> bool" where
  "matches_pattern [] [] = True"
| "matches_pattern (p # ps) (c # cs) =
     ((if p = CHR ''d'' then is_digit c else c = p) \<and> matches_pattern ps cs)"
| "matches_pattern _ _ = False"

definition is_datetime_local :: "string \<Rightarrow> bool" where
  "is_datetime_local s = matches_pattern ''dddd-dd-ddTdd:dd'' s"

section \<open>Notions used by the properties\<close>

text \<open>
  A consistent comparator, as the language standard requires of \<^verbatim>\<open>localeCompare\<close>:
  comparing a string with itself gives 0, swapping the arguments swaps the sign, and
  the order is transitive.
\<close>

definition consistent_compare :: "(string \<Rightarrow> string \<Rightarrow> int) \<Rightarrow> bool" where
  "consistent_compare lc =
     ((\<forall>a. lc a a = 0) \<and> (\<forall>a b. (lc a b < 0) = (lc b a > 0)) \<and>
      (\<forall>a b c. lc a b \<le> 0 \<and> lc b c \<le> 0 \<longrightarrow> lc a c \<le> 0))"

fun is_string :: "jsval \<Rightarrow> bool" where
  "is_string (JStr s) = True"
| "is_string _ = False"

text \<open>
  The types of the data model: the name of a record is a string, and its group name is
  a string or absent.
\<close>

definition well_typed :: "jsobj \<Rightarrow> bool" where
  "well_typed record =
     (is_string (record ''Name'') \<and>
      (record ''Group__c'' = Undefined \<or> record ''Group__c'' = Null \<or> is_string (record ''Group__c'')))"

text \<open>The sort key of the comparator: \<^verbatim>\<open>(a.Order__c || 999)\<close> as a number.\<close>

definition orderKey :: "host \<Rightarrow> jsobj \<Rightarrow> number" where
  "orderKey h record = ToNumber h (js_or (record ''Order__c'') (JNum 999))"

definition nameOf :: "jsobj \<Rightarrow> string" where
  "nameOf record = ToString (record ''Name'')"

text \<open>
  The order the sort within a group aims at: ascending sort key, and among equal keys
  ascending name.
\<close>

definition order_then_name :: "host \<Rightarrow> jsobj \<Rightarrow> jsobj \<Rightarrow> bool" where
  "order_then_name h a b =
     (case (orderKey h a, orderKey h b) of
        (Num ka, Num kb) \<Rightarrow> ka < kb \<or> (ka = kb \<and> localeCompare h (nameOf a) (nameOf b) \<le> 0)
      | _ \<Rightarrow> False)"

definition names_ascending :: "host \<Rightarrow> group \<Rightarrow> group \<Rightarrow> bool" where
  "names_ascending h a b =
     (is_string (groupName a) \<and> is_string (groupName b) \<and>
      localeCompare h (ToString (groupName a)) (ToString (groupName b)) \<le> 0)"

text \<open>
  An order field in its plain use: the one marker \<open>absent\<close> for a record without an order,
  or an integer other than 0 and 999.
\<close>

definition plain_order :: "jsval \<Rightarrow> jsval \<Rightarrow> bool" where
  "plain_order absent v =
     (v = absent \<or> (case v of JNumber (Num n) \<Rightarrow> n \<noteq> 0 \<and> n \<noteq> 999 | _ \<Rightarrow> False))"

text \<open>An order that is NaN, or an integer other than 0 and 999.\<close>

fun nan_or_plain :: "jsval \<Rightarrow> bool" where
  "nan_or_plain (JNumber NaN) = True"
| "nan_or_plain (JNumber (Num n)) = (n \<noteq> 0 \<and> n \<noteq> 999)"
| "nan_or_plain _ = False"

text \<open>
  The order that the comparator decides between records with such orders: ascending
  sort key; among equal keys, records whose order is NaN are tied, and records with
  the same integer are in ascending order of their names.
\<close>

definition key_then_name_nan_tied :: "host \<Rightarrow> jsobj \<Rightarrow> jsobj \<Rightarrow> bool" where
  "key_then_name_nan_tied h a b =
     (nan_or_plain (a ''Order__c'') \<and> nan_or_plain (b ''Order__c'') \<and>
      (case (orderKey h a, orderKey h b) of
         (Num ka, Num kb) \<Rightarrow>
           ka < kb \<or> (ka = kb \<and> (a ''Order__c'' = JNumber NaN \<or>
                                   localeCompare h (nameOf a) (nameOf b) \<le> 0))
       | _ \<Rightarrow> False))"

text \<open>
  The staging map is up to date: it has one entry per identifier, and the entry of an
  identifier is a record of the working set, with that identifier.
\<close>

definition staged_current :: "state \<Rightarrow> bool" where
  "staged_current s =
     (distinct (map fst (changedRecords s)) \<and>
      (\<forall>(k, v)\<in>set (changedRecords s). v \<in> set (processData s) \<and> strict_eq (v ''Id'') k))"

text \<open>The identifiers of the working records that an edit addresses.\<close>

definition addresses :: "state \<Rightarrow> edit_event \<Rightarrow> bool" where
  "addresses s event = (\<exists>record\<in>set (processData s). strict_eq (record ''Id'') (dataset_id event))"

subsection \<open>A host and records for the examples\<close>

text \<open>
  A host that compares strings by their code units, which is what every collation does
  on the single capital letters and digits used as names below; that rounds an integer
  to the nearest value of the 64-bit floating point, a tie to the even one, and to an
  infinity from \<open>2 ^ 1024\<close> on; and that converts the decimal integer literals.
\<close>

definition codeUnitCompare :: "string \<Rightarrow> string \<Rightarrow> int" where
  "codeUnitCompare a b = (if a < b then - 1 else if b < a then 1 else 0)"

function bit_length :: "int \<Rightarrow> nat" where
  "bit_length m = (if m \<le> 0 then 0 else Suc (bit_length (m div 2)))"
  by pat_completeness auto
termination
  by (relation "measure nat") auto

declare bit_length.simps [simp del]

definition nearestNumber :: "int \<Rightarrow> number" where
  "nearestNumber n =
     (let m = \<bar>n\<bar>;
          e = bit_length m - 53;
          q = m div 2 ^ e;
          r = m mod 2 ^ e;
          q' = (if 2 * r > 2 ^ e \<or> (2 * r = 2 ^ e \<and> odd q) then q + 1 else q);
          v = q' * 2 ^ e
      in if v \<ge> 2 ^ 1024 then (if n < 0 then NegInfinity else PosInfinity)
         else Num (if n < 0 then - v else v))"

definition integerLiteralToNumber :: "string \<Rightarrow> number" where
  "integerLiteralToNumber s =
     (let t = rev (dropWhile is_white_space (rev (dropWhile is_white_space s)));
          u = (if t \<noteq> [] \<and> (hd t = CHR ''+'' \<or> hd t = CHR ''-'') then tl t else t)
      in if t = [] then Num 0
         else if u \<noteq> [] \<and> list_all is_digit u
              then (case leadingInteger t of None \<Rightarrow> NaN | Some n \<Rightarrow> nearestNumber n)
         else NaN)"

definition exampleHost :: host where
  "exampleHost = \<lparr> localeCompare = codeUnitCompare, StringToNumber = integerLiteralToNumber,
     NumberOfInteger = nearestNumber \<rparr>"

text \<open>A record as the fetch delivers it: name, active flag, group name and order.\<close>

definition fetched :: "string \<Rightarrow> bool \<Rightarrow> jsval \<Rightarrow> jsval \<Rightarrow> jsobj" where
  "fetched name active grp ord =
     emptyObject(''Name'' := JStr name, ''Active__c'' := JBool active,
                 ''Group__c'' := grp, ''Order__c'' := ord)"

definition loaded :: "jsobj list \<Rightarrow> state" where
  "loaded records =
     snd (wiredProcess exampleHost \<lparr> result_data = Some records, result_error = None \<rparr> initial)"

definition textEdit :: "string \<Rightarrow> string \<Rightarrow> string \<Rightarrow> edit_event" where
  "textEdit recordId fieldName v =
     \<lparr> dataset_id = JStr recordId, dataset_field = fieldName, target_type = ''text'',
       target_checked = False, target_value = v \<rparr>"

definition scenarioRecords :: "jsobj list" where
  "scenarioRecords =
     [fetched ''P1'' True (JStr ''G1'') (JNum 1),
      fetched ''P2'' False (JStr ''G1'') (JNum 2),
      fetched ''P3'' True (JStr ''G2'') (JNum 1)]"

text \<open>Orders 3, null, 1, null with the names B, A, C, D, in one group.\<close>

definition sortExample :: "jsobj list" where
  "sortExample =
     [fetched ''B'' True Undefined (JNum 3),
      fetched ''A'' True Undefined Null,
      fetched ''C'' True Undefined (JNum 1),
      fetched ''D'' True Undefined Null]"

text \<open>What a projection shows: per group its name, the names of its members, its header style and its status text.\<close>

definition summary :: "error + group list \<Rightarrow> (jsval \<times> string list \<times> string \<times> string) list option" where
  "summary r =
     (case r of
        Inl e \<Rightarrow> None
      | Inr groups \<Rightarrow>
          Some (map (\<lambda>g. (groupName g, map nameOf (processes g), headerClass g, statusText g)) groups))"

definition orderSummary :: "error + group list \<Rightarrow> (string \<times> jsval) list list option" where
  "orderSummary r =
     (case r of
        Inl e \<Rightarrow> None
      | Inr groups \<Rightarrow> Some (map (\<lambda>g. map (\<lambda>p. (nameOf p, p ''Order__c'')) (processes g)) groups))"

text \<open>A record with the order 1000 and a record without an order.\<close>

definition largeOrderRecords :: "jsobj list" where
  "largeOrderRecords =
     [fetched ''A'' True Undefined (JNum 1000),
      fetched ''B'' True Undefined Undefined]"

text \<open>Two edits of the record P1 and one of the record P3.\<close>

definition exampleEdits :: "edit_event list" where
  "exampleEdits =
     [textEdit ''P1'' ''Name'' ''X'',
      textEdit ''P1'' ''Group__c'' ''G9'',
      textEdit ''P3'' ''Order__c'' ''5'']"

definition stagedSummary :: "state \<Rightarrow> (jsval \<times> jsval \<times> jsval \<times> jsval) list" where
  "stagedSummary s =
     map (\<lambda>(k, v). (k, v ''Name'', v ''Group__c'', v ''Order__c'')) (changedRecords s)"

text \<open>The rejection of a save by the service, with the service's message.\<close>

definition serviceError :: "string \<Rightarrow> js_error" where
  "serviceError msg = \<lparr> error_body = Some (emptyObject(''message'' := JStr msg)) \<rparr>"

text \<open>The working set after the example edits, then a save whose promise is still pending.\<close>

definition edited :: state where
  "edited = applyEdits exampleHost exampleEdits (loaded scenarioRecords)"

definition savePending :: state where
  "savePending = handleSaveChanges edited"

text \<open>
  Four records in one group with the orders 1, 1000, 5 and 3; then the order of X is
  edited to the text abc and the order of V to the text 7.
\<close>

definition malformedRecords :: "jsobj list" where
  "malformedRecords =
     [fetched ''X'' True Undefined (JNum 1),
      fetched ''Y'' True Undefined (JNum 1000),
      fetched ''Z'' True Undefined (JNum 5),
      fetched ''V'' True Undefined (JNum 3)]"

definition malformedEdit :: edit_event where
  "malformedEdit = textEdit ''X'' ''Order__c'' ''abc''"

definition digitEdit :: edit_event where
  "digitEdit = textEdit ''V'' ''Order__c'' ''7''"

definition afterOrderEdits :: state where
  "afterOrderEdits = applyEdits exampleHost [malformedEdit, digitEdit] (loaded malformedRecords)"

text \<open>Two records in one group, the first with the order NaN or without an order, the second without an order.\<close>

definition tieRecords :: "jsval \<Rightarrow> jsobj list" where
  "tieRecords ord =
     [fetched ''B'' True Undefined ord,
      fetched ''A'' True Undefined Undefined]"

text \<open>
  The process variables widget as it is constructed. The dash of the display is the em
  dash, which is not below 256; its three bytes in UTF-8 stand for it, and no property
  reads it.
\<close>

definition pv_initial :: pv_state where
  "pv_initial =
     \<lparr> serialEngineOn = False,
       serialEngineTimestampDisplay = [char_of (226::nat), char_of (128::nat), char_of (148::nat)],
       labelSerialEngineOn = ''Serial Engine On'',
       labelSerialEngineTimestamp = ''Serial Engine Timestamp'',
       editSerialEngineOn = False,
       editSerialEngineTimestamp = [],
       rawSerialEngineTimestamp = Null \<rparr>"

section \<open>Lemmas\<close>

subsection \<open>The sort: a permutation, total where the comparator is, sorted where it is consistent\<close>

lemma sort_insert_mset: "sort_insert c x ys = Inr zs \<Longrightarrow> mset zs = add_mset x (mset ys)"
  by (induction ys arbitrary: zs) (auto split: sum.splits if_splits)

lemma Array_sort_mset: "Array_sort c xs = Inr ys \<Longrightarrow> mset ys = mset xs"
  by (induction xs arbitrary: ys) (auto split: sum.splits dest: sort_insert_mset)

lemma sort_insert_total:
  "\<forall>y\<in>set ys. \<exists>v. c x y = Inr v \<Longrightarrow> \<exists>zs. sort_insert c x ys = Inr zs"
proof (induction ys)
  case Nil
  show ?case by simp
next
  case (Cons y ys)
  from Cons.prems obtain v where v: "c x y = Inr v" by auto
  from Cons obtain zs where "sort_insert c x ys = Inr zs" by auto
  with v show ?case by simp
qed

lemma Array_sort_total:
  "\<forall>x\<in>set xs. \<forall>y\<in>set xs. \<exists>v. c x y = Inr v \<Longrightarrow> \<exists>ys. Array_sort c xs = Inr ys"
proof (induction xs)
  case Nil
  show ?case by simp
next
  case (Cons x xs)
  then obtain ys where ys: "Array_sort c xs = Inr ys" by auto
  then have "set ys = set xs" using Array_sort_mset mset_eq_setD by blast
  with Cons.prems have "\<forall>y\<in>set ys. \<exists>v. c x y = Inr v" by simp
  then obtain zs where "sort_insert c x ys = Inr zs" using sort_insert_total[of ys c x] by blast
  with ys show ?case by simp
qed

lemma sort_insert_sorted:
  assumes "sort_insert c x ys = Inr zs" and "sorted_wrt Q ys" and "transp Q"
    and "\<And>y v. y \<in> set ys \<Longrightarrow> c x y = Inr v \<Longrightarrow> keeps_order v \<Longrightarrow> Q x y"
    and "\<And>y v. y \<in> set ys \<Longrightarrow> c x y = Inr v \<Longrightarrow> \<not> keeps_order v \<Longrightarrow> Q y x"
  shows "sorted_wrt Q zs"
  using assms
proof (induction ys arbitrary: zs)
  case Nil
  then show ?case by auto
next
  case (Cons y ys)
  from Cons.prems(1) obtain v where v: "c x y = Inr v" by (auto split: sum.splits)
  show ?case
  proof (cases "keeps_order v")
    case True
    with v Cons.prems(1) have zs: "zs = x # y # ys" by simp
    have xy: "Q x y" using Cons.prems(4)[OF _ v True] by simp
    have "\<forall>z\<in>set ys. Q x z"
      using xy Cons.prems(2,3) by (auto dest: transpD)
    with xy Cons.prems(2) zs show ?thesis by simp
  next
    case False
    with v Cons.prems(1) obtain zs' where zs': "sort_insert c x ys = Inr zs'" and zs: "zs = y # zs'"
      by (auto split: sum.splits)
    have yx: "Q y x" using Cons.prems(5)[OF _ v False] by simp
    have "sorted_wrt Q zs'"
      using Cons.IH[OF zs' _ Cons.prems(3)] Cons.prems(2,4,5) by auto
    moreover have "set zs' = insert x (set ys)"
      using sort_insert_mset[OF zs'] by (metis set_mset_add_mset_insert set_mset_mset)
    ultimately show ?thesis using zs yx Cons.prems(2) by auto
  qed
qed

lemma Array_sort_sorted:
  assumes "Array_sort c xs = Inr ys" and "transp Q"
    and "\<And>x y v. x \<in> set xs \<Longrightarrow> y \<in> set xs \<Longrightarrow> c x y = Inr v \<Longrightarrow> keeps_order v \<Longrightarrow> Q x y"
    and "\<And>x y v. x \<in> set xs \<Longrightarrow> y \<in> set xs \<Longrightarrow> c x y = Inr v \<Longrightarrow> \<not> keeps_order v \<Longrightarrow> Q y x"
  shows "sorted_wrt Q ys"
  using assms
proof (induction xs arbitrary: ys)
  case Nil
  then show ?case by simp
next
  case (Cons x xs)
  from Cons.prems(1) obtain ys' where ys': "Array_sort c xs = Inr ys'" and ins: "sort_insert c x ys' = Inr ys"
    by (auto split: sum.splits)
  have s: "set ys' = set xs" using Array_sort_mset[OF ys'] mset_eq_setD by blast
  have "sorted_wrt Q ys'"
    using Cons.IH[OF ys' Cons.prems(2)] Cons.prems(3,4) by auto
  then show ?case
    using sort_insert_sorted[OF ins _ Cons.prems(2)] Cons.prems(3,4) s by auto
qed

subsection \<open>The group map and the groups made from it\<close>

lemma groupMap_push_keys:
  "map fst (groupMap_push k x m) = (if k \<in> fst ` set m then map fst m else map fst m @ [k])"
  by (induction m) (force split: if_splits)+

lemma groupMap_push_distinct:
  "distinct (map fst m) \<Longrightarrow> distinct (map fst (groupMap_push k x m))"
  by (simp add: groupMap_push_keys)

lemma groupMap_push_lookup:
  "map_of (groupMap_push k x m) =
     (map_of m)(k \<mapsto> (case map_of m k of None \<Rightarrow> [x] | Some a \<Rightarrow> a @ [x]))"
  by (induction m) (auto simp: fun_eq_iff)

lemma groupMap_push_concat:
  "mset (concat (map snd (groupMap_push k x m))) = add_mset x (mset (concat (map snd m)))"
  by (induction m) auto

lemma groupMap_of_snoc:
  "groupMap_of (ps @ [p]) = groupMap_push (groupNameOf p) (withStatusClass p) (groupMap_of ps)"
  by (simp add: groupMap_of_def)

lemma groupMap_of_keys: "fst ` set (groupMap_of ps) = groupNameOf ` set ps"
proof (induction ps rule: rev_induct)
  case Nil
  show ?case by (simp add: groupMap_of_def)
next
  case (snoc p ps)
  have "set (map fst (groupMap_of (ps @ [p]))) = groupNameOf ` set (ps @ [p])"
    unfolding groupMap_of_snoc groupMap_push_keys using snoc.IH by auto
  then show ?case by simp
qed

lemma groupMap_of_distinct: "distinct (map fst (groupMap_of ps))"
proof (induction ps rule: rev_induct)
  case Nil
  show ?case by (simp add: groupMap_of_def)
next
  case (snoc p ps)
  then show ?case by (simp only: groupMap_of_snoc groupMap_push_distinct)
qed

lemma groupMap_of_concat: "mset (concat (map snd (groupMap_of ps))) = mset (map withStatusClass ps)"
proof (induction ps rule: rev_induct)
  case Nil
  show ?case by (simp add: groupMap_of_def)
next
  case (snoc p ps)
  then show ?case by (simp add: groupMap_of_snoc groupMap_push_concat)
qed

lemma groupMap_of_lookup:
  "map_of (groupMap_of ps) k =
     (if k \<in> groupNameOf ` set ps
      then Some (map withStatusClass (filter (\<lambda>p. groupNameOf p = k) ps)) else None)"
proof (induction ps rule: rev_induct)
  case Nil
  show ?case by (simp add: groupMap_of_def)
next
  case (snoc p ps)
  show ?case
  proof (cases "k = groupNameOf p")
    case False
    then show ?thesis
      unfolding groupMap_of_snoc groupMap_push_lookup using snoc.IH by auto
  next
    case True
    show ?thesis
    proof (cases "k \<in> groupNameOf ` set ps")
      case in_ps: True
      then show ?thesis
        unfolding groupMap_of_snoc groupMap_push_lookup using snoc.IH True by simp
    next
      case not_in: False
      then have "filter (\<lambda>p. groupNameOf p = k) ps = []"
        by (auto simp: filter_empty_conv)
      with not_in show ?thesis
        unfolding groupMap_of_snoc groupMap_push_lookup using snoc.IH True by simp
    qed
  qed
qed

lemma groupMap_of_entry:
  assumes "(k, arr) \<in> set (groupMap_of ps)"
  shows "arr = map withStatusClass (filter (\<lambda>p. groupNameOf p = k) ps)" and "k \<in> groupNameOf ` set ps"
proof -
  from assms have "map_of (groupMap_of ps) k = Some arr"
    by (simp add: groupMap_of_distinct)
  then show "arr = map withStatusClass (filter (\<lambda>p. groupNameOf p = k) ps)"
    and "k \<in> groupNameOf ` set ps"
    by (auto simp: groupMap_of_lookup split: if_splits)
qed

lemma Array_map_result: "Array_map f xs = Inr ys \<Longrightarrow> y \<in> set ys \<Longrightarrow> \<exists>x\<in>set xs. f x = Inr y"
  by (induction xs arbitrary: ys) (auto split: sum.splits)

lemma Array_map_total: "\<forall>x\<in>set xs. \<exists>y. f x = Inr y \<Longrightarrow> \<exists>ys. Array_map f xs = Inr ys"
  by (induction xs) (auto split: sum.splits)

lemma makeGroup_fields:
  assumes "makeGroup h (k, arr) = Inr g"
  shows "groupName g = k" and "Array_sort (compareProcesses h) arr = Inr (processes g)"
    and "allActive g = list_all isActive (processes g)"
    and "headerClass g =
      (if list_all isActive (processes g) then ''group-header active-group-header''
       else if list_all (\<lambda>p. \<not> isActive p) (processes g) then ''group-header inactive-group-header''
       else ''group-header mixed-group-header'')"
    and "statusText g = nat_to_string (length (filter isActive (processes g))) @ ''/'' @
       nat_to_string (length (processes g)) @ '' Active''"
  using assms by (auto simp: makeGroup_def Let_def split: sum.splits)

lemma Array_map_makeGroup_names:
  "Array_map (makeGroup h) m = Inr gs \<Longrightarrow> map groupName gs = map fst m"
proof (induction m arbitrary: gs)
  case Nil
  then show ?case by simp
next
  case (Cons e m)
  obtain k arr where e: "e = (k, arr)" by (cases e)
  from Cons.prems obtain g gs' where g: "makeGroup h (k, arr) = Inr g"
    and gs': "Array_map (makeGroup h) m = Inr gs'" and gs: "gs = g # gs'"
    by (auto simp: e split: sum.splits)
  from makeGroup_fields(1)[OF g] Cons.IH[OF gs'] gs e show ?case by simp
qed

lemma Array_map_makeGroup_concat:
  "Array_map (makeGroup h) m = Inr gs \<Longrightarrow>
     mset (concat (map processes gs)) = mset (concat (map snd m))"
proof (induction m arbitrary: gs)
  case Nil
  then show ?case by simp
next
  case (Cons e m)
  obtain k arr where e: "e = (k, arr)" by (cases e)
  from Cons.prems obtain g gs' where g: "makeGroup h (k, arr) = Inr g"
    and gs': "Array_map (makeGroup h) m = Inr gs'" and gs: "gs = g # gs'"
    by (auto simp: e split: sum.splits)
  have "mset (processes g) = mset arr"
    using makeGroup_fields(2)[OF g] by (rule Array_sort_mset)
  with Cons.IH[OF gs'] gs e show ?case by simp
qed

text \<open>Every group of the projection was made from an entry of the group map.\<close>

lemma groupedData_groups:
  assumes "groupedData h ps = Inr gs" and "g \<in> set gs"
  shows "\<exists>arr. (groupName g, arr) \<in> set (groupMap_of ps) \<and> makeGroup h (groupName g, arr) = Inr g"
proof (cases "ps = []")
  case True
  with assms show ?thesis by (simp add: groupedData_def)
next
  case False
  with assms(1) obtain gs0 where m: "Array_map (makeGroup h) (groupMap_of ps) = Inr gs0"
    and s: "Array_sort (compareGroups h) gs0 = Inr gs"
    by (auto simp: groupedData_def split: sum.splits)
  from s assms(2) have "g \<in> set gs0" using Array_sort_mset mset_eq_setD by blast
  with Array_map_result[OF m] obtain e where e: "e \<in> set (groupMap_of ps)" "makeGroup h e = Inr g"
    by blast
  obtain k arr where ke: "e = (k, arr)" by (cases e)
  with e makeGroup_fields(1)[of h k arr g] show ?thesis by auto
qed

lemma groupedData_members:
  assumes "groupedData h ps = Inr gs" and "g \<in> set gs"
  shows "mset (processes g) = mset (map withStatusClass (filter (\<lambda>p. groupNameOf p = groupName g) ps))"
    and "groupName g \<in> groupNameOf ` set ps"
proof -
  from groupedData_groups[OF assms] obtain arr where
    a: "(groupName g, arr) \<in> set (groupMap_of ps)" and m: "makeGroup h (groupName g, arr) = Inr g"
    by blast
  from makeGroup_fields(2)[OF m] have "mset (processes g) = mset arr" by (rule Array_sort_mset)
  with groupMap_of_entry[OF a]
  show "mset (processes g) = mset (map withStatusClass (filter (\<lambda>p. groupNameOf p = groupName g) ps))"
    and "groupName g \<in> groupNameOf ` set ps" by simp_all
qed

lemma groupedData_nonempty:
  assumes "groupedData h ps = Inr gs" and "g \<in> set gs"
  shows "processes g \<noteq> []"
proof -
  from groupedData_members(2)[OF assms] obtain p where p: "p \<in> set ps" "groupNameOf p = groupName g"
    by (metis imageE)
  then have "p \<in> set (filter (\<lambda>p. groupNameOf p = groupName g) ps)" by simp
  then have ne: "filter (\<lambda>p. groupNameOf p = groupName g) ps \<noteq> []" by (metis empty_iff empty_set)
  show ?thesis
  proof
    assume "processes g = []"
    with groupedData_members(1)[OF assms]
    have "mset (map withStatusClass (filter (\<lambda>p. groupNameOf p = groupName g) ps)) = {#}" by simp
    then have "filter (\<lambda>p. groupNameOf p = groupName g) ps = []"
      by (simp only: mset_zero_iff map_is_Nil_conv)
    with ne show False by contradiction
  qed
qed

lemma nat_to_string_0: "nat_to_string 0 = ''0''"
  by code_simp

subsection \<open>The projection of a well-typed working set\<close>

lemma is_string_conv: "is_string v = (\<exists>s. v = JStr s)"
  by (cases v) auto

lemma is_stringE:
  assumes "is_string v"
  obtains s where "v = JStr s"
  using assms by (cases v) auto

lemma withStatusClass_fields [simp]:
  "withStatusClass p ''Name'' = p ''Name''"
  "withStatusClass p ''Order__c'' = p ''Order__c''"
  "withStatusClass p ''Active__c'' = p ''Active__c''"
  "withStatusClass p ''Group__c'' = p ''Group__c''"
  by (simp_all add: withStatusClass_def)

lemma groupNameOf_withStatusClass [simp]: "groupNameOf (withStatusClass p) = groupNameOf p"
  by (simp add: groupNameOf_def)

lemma well_typed_groupNameOf: "well_typed p \<Longrightarrow> is_string (groupNameOf p)"
  by (auto simp: well_typed_def groupNameOf_def js_or_def is_string_conv)

lemma compareProcesses_total:
  "is_string (a ''Name'') \<Longrightarrow> \<exists>v. compareProcesses h a b = Inr v"
  by (auto simp: compareProcesses_def localeCompare_call_def is_string_conv)

lemma compareGroups_string:
  "groupName a = JStr s \<Longrightarrow> groupName b = JStr t \<Longrightarrow>
     compareGroups h a b = Inr (Num (localeCompare h s t))"
  by (simp add: compareGroups_def localeCompare_call_def)

lemma names_ascending_transp:
  assumes "consistent_compare (localeCompare h)"
  shows "transp (names_ascending h)"
proof (rule transpI)
  fix a b c
  assume "names_ascending h a b" "names_ascending h b c"
  moreover from assms have
    "\<And>s t u. localeCompare h s t \<le> 0 \<Longrightarrow> localeCompare h t u \<le> 0 \<Longrightarrow> localeCompare h s u \<le> 0"
    unfolding consistent_compare_def by blast
  ultimately show "names_ascending h a c"
    unfolding names_ascending_def by blast
qed

lemma makeGroup_total:
  assumes "\<forall>p\<in>set arr. is_string (p ''Name'')"
  shows "\<exists>g. makeGroup h (k, arr) = Inr g"
proof -
  have "\<forall>x\<in>set arr. \<forall>y\<in>set arr. \<exists>v. compareProcesses h x y = Inr v"
    using assms compareProcesses_total by blast
  from Array_sort_total[OF this] obtain ys where "Array_sort (compareProcesses h) arr = Inr ys" ..
  then show ?thesis by (simp add: makeGroup_def Let_def)
qed

lemma groupedData_total:
  assumes wt: "\<forall>p\<in>set ps. well_typed p"
  shows "\<exists>gs. groupedData h ps = Inr gs"
proof (cases "ps = []")
  case True
  then show ?thesis by (simp add: groupedData_def)
next
  case False
  have "\<forall>e\<in>set (groupMap_of ps). \<exists>g. makeGroup h e = Inr g"
  proof
    fix e assume e: "e \<in> set (groupMap_of ps)"
    obtain k arr where ke: "e = (k, arr)" by (cases e)
    from groupMap_of_entry(1)[of k arr ps] e ke
    have "arr = map withStatusClass (filter (\<lambda>p. groupNameOf p = k) ps)" by simp
    then have "\<forall>p\<in>set arr. is_string (p ''Name'')"
      using wt by (auto simp: well_typed_def)
    from makeGroup_total[OF this] ke show "\<exists>g. makeGroup h e = Inr g" by simp
  qed
  from Array_map_total[OF this] obtain gs0 where
    m: "Array_map (makeGroup h) (groupMap_of ps) = Inr gs0" ..
  have names: "map groupName gs0 = map fst (groupMap_of ps)"
    by (rule Array_map_makeGroup_names[OF m])
  have str: "\<forall>g\<in>set gs0. is_string (groupName g)"
  proof
    fix g assume "g \<in> set gs0"
    then have "groupName g \<in> set (map groupName gs0)" by simp
    then have "groupName g \<in> fst ` set (groupMap_of ps)" by (simp add: names)
    then have "groupName g \<in> groupNameOf ` set ps" by (simp only: groupMap_of_keys)
    then show "is_string (groupName g)" using wt well_typed_groupNameOf by auto
  qed
  have "\<forall>x\<in>set gs0. \<forall>y\<in>set gs0. \<exists>v. compareGroups h x y = Inr v"
  proof (intro ballI)
    fix x y assume "x \<in> set gs0" "y \<in> set gs0"
    with str have "is_string (groupName x)" "is_string (groupName y)" by blast+
    then obtain t u where "groupName x = JStr t" "groupName y = JStr u"
      by (elim is_stringE)
    then show "\<exists>v. compareGroups h x y = Inr v" by (simp add: compareGroups_string)
  qed
  from Array_sort_total[OF this] obtain gs where "Array_sort (compareGroups h) gs0 = Inr gs" ..
  with m False show ?thesis by (simp add: groupedData_def)
qed

lemma mset_concat_map:
  "mset (concat (map f xs)) = (\<Sum>x\<in>#mset xs. mset (f x))"
  by (induction xs) simp_all

lemma groupedData_concat:
  assumes "groupedData h ps = Inr gs"
  shows "mset (concat (map processes gs)) = mset (map withStatusClass ps)"
proof (cases "ps = []")
  case True
  with assms show ?thesis by (simp add: groupedData_def)
next
  case False
  with assms obtain gs0 where m: "Array_map (makeGroup h) (groupMap_of ps) = Inr gs0"
    and s: "Array_sort (compareGroups h) gs0 = Inr gs"
    by (auto simp: groupedData_def split: sum.splits)
  have "mset (concat (map processes gs)) = mset (concat (map processes gs0))"
    using Array_sort_mset[OF s] by (simp add: mset_concat_map)
  also have "\<dots> = mset (map withStatusClass ps)"
    using Array_map_makeGroup_concat[OF m] groupMap_of_concat by simp
  finally show ?thesis .
qed

lemma groupedData_names:
  assumes "groupedData h ps = Inr gs"
  shows "distinct (map groupName gs)" and "groupName ` set gs = groupNameOf ` set ps"
proof -
  have "distinct (map groupName gs) \<and> groupName ` set gs = groupNameOf ` set ps"
  proof (cases "ps = []")
    case True
    with assms show ?thesis by (simp add: groupedData_def)
  next
    case False
    with assms obtain gs0 where m: "Array_map (makeGroup h) (groupMap_of ps) = Inr gs0"
      and s: "Array_sort (compareGroups h) gs0 = Inr gs"
      by (auto simp: groupedData_def split: sum.splits)
    have names: "map groupName gs0 = map fst (groupMap_of ps)"
      by (rule Array_map_makeGroup_names[OF m])
    have ms: "mset (map groupName gs) = mset (map groupName gs0)"
      using Array_sort_mset[OF s] by simp
    have "distinct (map groupName gs0)" by (simp add: names groupMap_of_distinct)
    then have d: "distinct (map groupName gs)" using ms by (metis mset_eq_imp_distinct_iff)
    have "set (map groupName gs) = set (map groupName gs0)" using ms by (rule mset_eq_setD)
    also have "\<dots> = fst ` set (groupMap_of ps)" by (simp add: names)
    finally have "groupName ` set gs = groupNameOf ` set ps" by (simp add: groupMap_of_keys)
    with d show ?thesis by simp
  qed
  then show "distinct (map groupName gs)" and "groupName ` set gs = groupNameOf ` set ps" by simp_all
qed

lemma groupedData_sorted:
  assumes "groupedData h ps = Inr gs" and lc: "consistent_compare (localeCompare h)"
    and wt: "\<forall>p\<in>set ps. well_typed p"
  shows "sorted_wrt (names_ascending h) gs"
proof (cases "ps = []")
  case True
  with assms show ?thesis by (simp add: groupedData_def)
next
  case False
  with assms obtain gs0 where m: "Array_map (makeGroup h) (groupMap_of ps) = Inr gs0"
    and s: "Array_sort (compareGroups h) gs0 = Inr gs"
    by (auto simp: groupedData_def split: sum.splits)
  have names: "map groupName gs0 = map fst (groupMap_of ps)"
    by (rule Array_map_makeGroup_names[OF m])
  have str: "is_string (groupName g)" if "g \<in> set gs0" for g
  proof -
    from that have "groupName g \<in> set (map groupName gs0)" by simp
    then have "groupName g \<in> fst ` set (groupMap_of ps)" by (simp add: names)
    then have "groupName g \<in> groupNameOf ` set ps" by (simp only: groupMap_of_keys)
    then show ?thesis using wt well_typed_groupNameOf by auto
  qed
  have sym: "localeCompare h t u \<le> 0" if "0 < localeCompare h u t" for t u
  proof -
    from lc have "(localeCompare h t u < 0) = (localeCompare h u t > 0)"
      unfolding consistent_compare_def by blast
    with that show ?thesis by simp
  qed
  show ?thesis
  proof (rule Array_sort_sorted[OF s names_ascending_transp[OF lc]])
    fix x y v
    assume x: "x \<in> set gs0" and y: "y \<in> set gs0" and c: "compareGroups h x y = Inr v"
      and k: "keeps_order v"
    from str[OF x] str[OF y] obtain t u where tu: "groupName x = JStr t" "groupName y = JStr u"
      by (elim is_stringE)
    with c k show "names_ascending h x y"
      by (auto simp: compareGroups_string names_ascending_def)
  next
    fix x y v
    assume x: "x \<in> set gs0" and y: "y \<in> set gs0" and c: "compareGroups h x y = Inr v"
      and k: "\<not> keeps_order v"
    from str[OF x] str[OF y] obtain t u where tu: "groupName x = JStr t" "groupName y = JStr u"
      by (elim is_stringE)
    with c k have "0 < localeCompare h t u" by (auto simp: compareGroups_string)
    from sym[OF this] tu show "names_ascending h y x"
      by (simp add: names_ascending_def)
  qed
qed

lemma codeUnitCompare_consistent: "consistent_compare codeUnitCompare"
  unfolding consistent_compare_def codeUnitCompare_def by auto

lemma exampleHost_consistent: "consistent_compare (localeCompare exampleHost)"
  by (simp add: exampleHost_def codeUnitCompare_consistent)

lemma fetched_well_typed:
  "grp = Undefined \<or> grp = Null \<or> is_string grp \<Longrightarrow> well_typed (fetched name active grp ord)"
  by (simp add: well_typed_def fetched_def)

subsection \<open>The comparator on plain orders\<close>

lemma order_then_name_transp:
  assumes "consistent_compare (localeCompare h)"
  shows "transp (order_then_name h)"
proof (rule transpI)
  fix a b c
  assume ab: "order_then_name h a b" and bc: "order_then_name h b c"
  from assms have tr:
    "\<And>s t u. localeCompare h s t \<le> 0 \<Longrightarrow> localeCompare h t u \<le> 0 \<Longrightarrow> localeCompare h s u \<le> 0"
    unfolding consistent_compare_def by blast
  from ab obtain ka kb where k1: "orderKey h a = Num ka" "orderKey h b = Num kb"
    and o1: "ka < kb \<or> (ka = kb \<and> localeCompare h (nameOf a) (nameOf b) \<le> 0)"
    by (auto simp: order_then_name_def split: number.splits)
  from bc k1 obtain kc where k2: "orderKey h c = Num kc"
    and o2: "kb < kc \<or> (kb = kc \<and> localeCompare h (nameOf b) (nameOf c) \<le> 0)"
    by (auto simp: order_then_name_def split: number.splits)
  from o1 o2 tr have "ka < kc \<or> (ka = kc \<and> localeCompare h (nameOf a) (nameOf c) \<le> 0)"
    by (elim disjE conjE) auto
  with k1 k2 show "order_then_name h a c" by (simp add: order_then_name_def)
qed

lemma plain_order_key:
  assumes "\<not> truthy z" and "plain_order z v"
  shows "ToNumber h (js_or v (JNum 999)) =
     (if v = z then Num 999 else ToNumber h v)"
    and "v \<noteq> z \<Longrightarrow> \<exists>n. v = JNum n \<and> n \<noteq> 0 \<and> n \<noteq> 999"
  using assms by (auto simp: plain_order_def js_or_def split: jsval.splits number.splits)

lemma compareProcesses_plain:
  assumes lc: "consistent_compare (localeCompare h)"
    and z: "\<not> truthy z" "z \<noteq> JNumber NaN"
    and a: "plain_order z (a ''Order__c'')" "is_string (a ''Name'')"
    and b: "plain_order z (b ''Order__c'')" "is_string (b ''Name'')"
    and c: "compareProcesses h a b = Inr v"
  shows "keeps_order v \<Longrightarrow> order_then_name h a b"
    and "\<not> keeps_order v \<Longrightarrow> order_then_name h b a"
proof -
  from a(2) b(2) obtain s t where st: "a ''Name'' = JStr s" "b ''Name'' = JStr t"
    by (elim is_stringE)
  from lc have sym: "(localeCompare h s t < 0) = (localeCompare h t s > 0)"
    unfolding consistent_compare_def by blast
  have ka: "orderKey h a = (if a ''Order__c'' = z then Num 999 else ToNumber h (a ''Order__c''))"
    unfolding orderKey_def by (rule plain_order_key(1)[OF z(1) a(1)])
  have kb: "orderKey h b = (if b ''Order__c'' = z then Num 999 else ToNumber h (b ''Order__c''))"
    unfolding orderKey_def by (rule plain_order_key(1)[OF z(1) b(1)])
  show "keeps_order v \<Longrightarrow> order_then_name h a b"
    and "\<not> keeps_order v \<Longrightarrow> order_then_name h b a"
  proof -
    consider (same) "a ''Order__c'' = b ''Order__c''"
      | (az) "a ''Order__c'' = z" "b ''Order__c'' \<noteq> z"
      | (bz) "a ''Order__c'' \<noteq> z" "b ''Order__c'' = z"
      | (nums) "a ''Order__c'' \<noteq> z" "b ''Order__c'' \<noteq> z" "a ''Order__c'' \<noteq> b ''Order__c''"
      by blast
    then have "(keeps_order v \<longrightarrow> order_then_name h a b) \<and> (\<not> keeps_order v \<longrightarrow> order_then_name h b a)"
    proof cases
      case same
      have "a ''Order__c'' \<noteq> JNumber NaN"
        using a(1) z(2) by (auto simp: plain_order_def)
      with same have "strict_eq (a ''Order__c'') (b ''Order__c'')" by (simp add: strict_eq_def)
      with c st have v: "v = Num (localeCompare h s t)"
        by (simp add: compareProcesses_def localeCompare_call_def)
      from ka kb same obtain k where "orderKey h a = Num k" "orderKey h b = Num k"
        using plain_order_key(2)[OF z(1) a(1)] by (cases "a ''Order__c'' = z") auto
      with v st sym show ?thesis
        by (auto simp: order_then_name_def nameOf_def)
    next
      case az
      from plain_order_key(2)[OF z(1) b(1) az(2)] obtain n where
        n: "b ''Order__c'' = JNum n" "n \<noteq> 0" "n \<noteq> 999" by blast
      from az have "\<not> strict_eq (a ''Order__c'') (b ''Order__c'')" by (auto simp: strict_eq_def)
      with c have "v = js_sub h (js_or (a ''Order__c'') (JNum 999)) (js_or (b ''Order__c'') (JNum 999))"
        by (simp add: compareProcesses_def)
      with ka kb az n have "v = Num (999 - n)" by (simp add: js_sub_def orderKey_def)
      with ka kb az n show ?thesis by (auto simp: order_then_name_def)
    next
      case bz
      from plain_order_key(2)[OF z(1) a(1) bz(1)] obtain n where
        n: "a ''Order__c'' = JNum n" "n \<noteq> 0" "n \<noteq> 999" by blast
      from bz have "\<not> strict_eq (a ''Order__c'') (b ''Order__c'')" by (auto simp: strict_eq_def)
      with c have "v = js_sub h (js_or (a ''Order__c'') (JNum 999)) (js_or (b ''Order__c'') (JNum 999))"
        by (simp add: compareProcesses_def)
      with ka kb bz n have "v = Num (n - 999)" by (simp add: js_sub_def orderKey_def)
      with ka kb bz n show ?thesis by (auto simp: order_then_name_def)
    next
      case nums
      from plain_order_key(2)[OF z(1) a(1) nums(1)] obtain n where
        n: "a ''Order__c'' = JNum n" "n \<noteq> 0" "n \<noteq> 999" by blast
      from plain_order_key(2)[OF z(1) b(1) nums(2)] obtain m where
        m: "b ''Order__c'' = JNum m" "m \<noteq> 0" "m \<noteq> 999" by blast
      from nums have "\<not> strict_eq (a ''Order__c'') (b ''Order__c'')" by (auto simp: strict_eq_def)
      with c have "v = js_sub h (js_or (a ''Order__c'') (JNum 999)) (js_or (b ''Order__c'') (JNum 999))"
        by (simp add: compareProcesses_def)
      with ka kb nums n m have "v = Num (n - m)" by (simp add: js_sub_def orderKey_def)
      with ka kb nums n m show ?thesis by (auto simp: order_then_name_def)
    qed
    then show "keeps_order v \<Longrightarrow> order_then_name h a b"
      and "\<not> keeps_order v \<Longrightarrow> order_then_name h b a" by simp_all
  qed
qed

subsection \<open>What the handlers leave alone\<close>

lemma processGroupedData_frame:
  "processData (snd (processGroupedData h s)) = processData s"
  "originalData (snd (processGroupedData h s)) = originalData s"
  "changedRecords (snd (processGroupedData h s)) = changedRecords s"
  "isLoading (snd (processGroupedData h s)) = isLoading s"
  "toasts (snd (processGroupedData h s)) = toasts s"
  "persistCalls (snd (processGroupedData h s)) = persistCalls s"
  by (simp_all add: processGroupedData_def split: sum.splits)

lemma editRecords_fst:
  "fst (editRecords recordId fieldName fieldValue records changed) =
     map (\<lambda>record. if strict_eq (record ''Id'') recordId
                     then updatedRecord fieldName fieldValue record else record) records"
  by (induction records arbitrary: changed) (simp_all add: Let_def case_prod_beta)

lemma editRecords_snd:
  "snd (editRecords recordId fieldName fieldValue records changed) =
     foldl (\<lambda>m record. if strict_eq (record ''Id'') recordId
                         then Map_set recordId (updatedRecord fieldName fieldValue record) m else m)
       changed records"
  by (induction records arbitrary: changed) (simp_all add: Let_def case_prod_beta)

lemma handleTableEdit_frame:
  "processData (snd (handleTableEdit h event s)) =
     map (\<lambda>record. if strict_eq (record ''Id'') (dataset_id event)
                     then updatedRecord (dataset_field event) (editedValue h event) record else record)
       (processData s)"
  "changedRecords (snd (handleTableEdit h event s)) =
     snd (editRecords (dataset_id event) (dataset_field event) (editedValue h event)
            (processData s) (changedRecords s))"
  "originalData (snd (handleTableEdit h event s)) = originalData s"
  "isLoading (snd (handleTableEdit h event s)) = isLoading s"
  "toasts (snd (handleTableEdit h event s)) = toasts s"
  "persistCalls (snd (handleTableEdit h event s)) = persistCalls s"
  by (simp_all add: handleTableEdit_def processGroupedData_frame editRecords_fst case_prod_beta)

lemma applyEdits_snoc:
  "applyEdits h (events @ [event]) s = snd (handleTableEdit h event (applyEdits h events s))"
  by (simp add: applyEdits_def)

lemma applyEdits_frame:
  "originalData (applyEdits h events s) = originalData s"
  "isLoading (applyEdits h events s) = isLoading s"
  "toasts (applyEdits h events s) = toasts s"
  "persistCalls (applyEdits h events s) = persistCalls s"
  by (induction events rule: rev_induct) (simp_all add: applyEdits_snoc handleTableEdit_frame, simp_all add: applyEdits_def)

lemma wiredProcess_data:
  "processData (snd (wiredProcess h \<lparr> result_data = Some records, result_error = err \<rparr> s)) =
     map workingRecord records"
  "originalData (snd (wiredProcess h \<lparr> result_data = Some records, result_error = err \<rparr> s)) = records"
  "persistCalls (snd (wiredProcess h \<lparr> result_data = Some records, result_error = err \<rparr> s)) =
     persistCalls s"
  by (simp_all add: wiredProcess_def Let_def processGroupedData_def split: sum.splits)

lemma handleCancelChanges_frame:
  "processData (snd (handleCancelChanges h s)) = map workingRecord (originalData s)"
  "changedRecords (snd (handleCancelChanges h s)) = []"
  "originalData (snd (handleCancelChanges h s)) = originalData s"
  "persistCalls (snd (handleCancelChanges h s)) = persistCalls s"
  by (simp_all add: handleCancelChanges_def Let_def processGroupedData_def showToast_def split: sum.splits)

subsection \<open>The staging map\<close>

lemma Map_set_keys:
  "map fst (Map_set k v m) = (if k \<in> fst ` set m then map fst m else map fst m @ [k])"
  by (induction m) (force split: if_splits)+

lemma Map_set_distinct: "distinct (map fst m) \<Longrightarrow> distinct (map fst (Map_set k v m))"
  by (simp add: Map_set_keys)

lemma Map_set_lookup: "map_of (Map_set k v m) = (map_of m)(k \<mapsto> v)"
  by (induction m) (auto simp: fun_eq_iff)

lemma Map_set_entry:
  assumes "distinct (map fst m)"
  shows "((k', v') \<in> set (Map_set k v m)) = (if k' = k then v' = v else (k', v') \<in> set m)"
proof -
  have "((k', v') \<in> set (Map_set k v m)) = (map_of (Map_set k v m) k' = Some v')"
    using Map_set_distinct[OF assms] by simp
  also have "\<dots> = (if k' = k then v' = v else map_of m k' = Some v')"
    by (auto simp: Map_set_lookup)
  also have "\<dots> = (if k' = k then v' = v else (k', v') \<in> set m)"
    using assms by simp
  finally show ?thesis .
qed

lemma Map_set_twice: "Map_set k v (Map_set k w m) = Map_set k v m"
  by (induction m) auto

text \<open>The staged snapshot after one edit: that of the last record the edit updated.\<close>

lemma editRecords_staged:
  "snd (editRecords recordId fieldName fieldValue records changed) =
     (case filter (\<lambda>record. strict_eq (record ''Id'') recordId) records of
        [] \<Rightarrow> changed
      | ms \<Rightarrow> Map_set recordId (updatedRecord fieldName fieldValue (last ms)) changed)"
proof (induction records rule: rev_induct)
  case Nil
  show ?case by simp
next
  case (snoc r records)
  show ?case
  proof (cases "strict_eq (r ''Id'') recordId")
    case True
    then show ?thesis
      using snoc unfolding editRecords_snd
      by (auto simp: Map_set_twice split: list.splits)
  next
    case False
    then show ?thesis
      using snoc unfolding editRecords_snd by simp
  qed
qed

lemma updatedRecord_Id:
  "fieldName \<noteq> ''Id'' \<Longrightarrow> updatedRecord fieldName fieldValue record ''Id'' = record ''Id''"
  by (simp add: updatedRecord_def Let_def)

lemma updatedRecord_field:
  "updatedRecord fieldName fieldValue record fieldName = fieldValue"
  by (simp add: updatedRecord_def Let_def)

lemma strict_eq_key: "strict_eq a k \<Longrightarrow> strict_eq a k' \<Longrightarrow> k = k'"
  by (simp add: strict_eq_def)

subsection \<open>The staging map stays up to date\<close>

lemma edit_step:
  assumes inv: "staged_current s" and f: "dataset_field event \<noteq> ''Id''"
  shows "staged_current (snd (handleTableEdit h event s))"
    and "fst ` set (changedRecords (snd (handleTableEdit h event s))) =
           fst ` set (changedRecords s) \<union> (if addresses s event then {dataset_id event} else {})"
    and "map (\<lambda>r. r ''Id'') (processData (snd (handleTableEdit h event s))) =
           map (\<lambda>r. r ''Id'') (processData s)"
    and "\<forall>(k, v)\<in>set (changedRecords (snd (handleTableEdit h event s))).
           k = dataset_id event \<longrightarrow> v (dataset_field event) = editedValue h event"
proof -
  define i where "i = dataset_id event"
  define upd where "upd = updatedRecord (dataset_field event) (editedValue h event)"
  define pd where "pd = processData s"
  define cr where "cr = changedRecords s"
  define pd' where "pd' = map (\<lambda>r. if strict_eq (r ''Id'') i then upd r else r) pd"
  define ms where "ms = filter (\<lambda>r. strict_eq (r ''Id'') i) pd"
  define cr' where "cr' = (case ms of [] \<Rightarrow> cr | _ \<Rightarrow> Map_set i (upd (last ms)) cr)"
  have pd'_eq: "processData (snd (handleTableEdit h event s)) = pd'"
    by (simp add: handleTableEdit_frame pd'_def i_def upd_def pd_def)
  have cr'_eq: "changedRecords (snd (handleTableEdit h event s)) = cr'"
    by (simp add: handleTableEdit_frame editRecords_staged cr'_def ms_def i_def upd_def pd_def cr_def
          split: list.splits)
  from inv have d: "distinct (map fst cr)"
    and cur: "\<And>k v. (k, v) \<in> set cr \<Longrightarrow> v \<in> set pd \<and> strict_eq (v ''Id'') k"
    by (auto simp: staged_current_def cr_def pd_def)
  have upd_Id: "upd r ''Id'' = r ''Id''" for r
    unfolding upd_def by (rule updatedRecord_Id[OF f])
  have ids: "map (\<lambda>r. r ''Id'') pd' = map (\<lambda>r. r ''Id'') pd"
    by (simp add: pd'_def upd_Id)
  have addr: "addresses s event = (ms \<noteq> [])"
    by (auto simp: addresses_def ms_def pd_def i_def filter_empty_conv)
  have keep: "v \<in> set pd'" if "v \<in> set pd" "\<not> strict_eq (v ''Id'') i" for v
  proof -
    from that have "(if strict_eq (v ''Id'') i then upd v else v) \<in> set pd'"
      unfolding pd'_def set_map by (intro imageI)
    with that show ?thesis by simp
  qed
  have main: "distinct (map fst cr') \<and>
      (\<forall>k v. (k, v) \<in> set cr' \<longrightarrow> v \<in> set pd' \<and> strict_eq (v ''Id'') k \<and>
          (k = i \<longrightarrow> v (dataset_field event) = editedValue h event)) \<and>
      fst ` set cr' = fst ` set cr \<union> (if ms \<noteq> [] then {i} else {})"
  proof (cases "ms = []")
    case True
    then have none: "\<And>r. r \<in> set pd \<Longrightarrow> \<not> strict_eq (r ''Id'') i"
      by (auto simp: ms_def filter_empty_conv)
    then have same: "pd' = pd" unfolding pd'_def by (simp add: map_idI)
    from True have cr: "cr' = cr" by (simp add: cr'_def)
    have "\<And>k v. (k, v) \<in> set cr \<Longrightarrow> k \<noteq> i"
      using cur none by blast
    with d cur True show ?thesis by (auto simp: same cr)
  next
    case False
    then have cr: "cr' = Map_set i (upd (last ms)) cr"
      by (cases ms) (simp_all add: cr'_def)
    from False have "last ms \<in> set ms" by simp
    then have l: "last ms \<in> set pd" "strict_eq (last ms ''Id'') i" by (simp_all add: ms_def)
    from l(1) have "(if strict_eq (last ms ''Id'') i then upd (last ms) else last ms) \<in> set pd'"
      unfolding pd'_def set_map by (intro imageI)
    with l(2) have in': "upd (last ms) \<in> set pd'" by simp
    have new: "strict_eq (upd (last ms) ''Id'') i" using l(2) by (simp add: upd_Id)
    have val: "upd (last ms) (dataset_field event) = editedValue h event"
      unfolding upd_def by (rule updatedRecord_field)
    have "v \<in> set pd' \<and> strict_eq (v ''Id'') k \<and> (k = i \<longrightarrow> v (dataset_field event) = editedValue h event)"
      if "(k, v) \<in> set cr'" for k v
    proof (cases "k = i")
      case True
      with that have "v = upd (last ms)" by (simp add: cr Map_set_entry[OF d])
      with True in' new val show ?thesis by simp
    next
      case ne: False
      with that have old: "(k, v) \<in> set cr" by (simp add: cr Map_set_entry[OF d])
      from cur[OF old] ne have "\<not> strict_eq (v ''Id'') i" using strict_eq_key by blast
      with cur[OF old] keep ne show ?thesis by simp
    qed
    moreover have "distinct (map fst cr')" unfolding cr by (rule Map_set_distinct[OF d])
    moreover have "fst ` set cr' = fst ` set cr \<union> {i}"
    proof -
      have "set (map fst cr') = set (map fst cr) \<union> {i}"
        unfolding cr Map_set_keys by auto
      then show ?thesis by simp
    qed
    ultimately show ?thesis using False by simp
  qed
  from main show "staged_current (snd (handleTableEdit h event s))"
    unfolding staged_current_def pd'_eq cr'_eq by blast
  from main show "fst ` set (changedRecords (snd (handleTableEdit h event s))) =
           fst ` set (changedRecords s) \<union> (if addresses s event then {dataset_id event} else {})"
    unfolding cr'_eq addr by (simp add: cr_def i_def)
  from ids show "map (\<lambda>r. r ''Id'') (processData (snd (handleTableEdit h event s))) =
           map (\<lambda>r. r ''Id'') (processData s)"
    unfolding pd'_eq pd_def .
  from main show "\<forall>(k, v)\<in>set (changedRecords (snd (handleTableEdit h event s))).
           k = dataset_id event \<longrightarrow> v (dataset_field event) = editedValue h event"
    unfolding cr'_eq i_def by blast
qed

lemma addresses_ids:
  "map (\<lambda>r. r ''Id'') (processData s) = map (\<lambda>r. r ''Id'') (processData s') \<Longrightarrow>
     addresses s event = addresses s' event"
proof -
  assume "map (\<lambda>r. r ''Id'') (processData s) = map (\<lambda>r. r ''Id'') (processData s')"
  then have "set (map (\<lambda>r. r ''Id'') (processData s)) = set (map (\<lambda>r. r ''Id'') (processData s'))"
    by simp
  then have "(\<lambda>r. r ''Id'') ` set (processData s) = (\<lambda>r. r ''Id'') ` set (processData s')"
    by simp
  then show ?thesis unfolding addresses_def by (metis (no_types, lifting) image_iff)
qed

lemma applyEdits_staging:
  assumes "changedRecords s0 = []" and "\<forall>event\<in>set events. dataset_field event \<noteq> ''Id''"
  shows "staged_current (applyEdits h events s0)
    \<and> map (\<lambda>r. r ''Id'') (processData (applyEdits h events s0)) = map (\<lambda>r. r ''Id'') (processData s0)
    \<and> fst ` set (changedRecords (applyEdits h events s0)) =
        {dataset_id event | event. event \<in> set events \<and> addresses s0 event}"
  using assms(2)
proof (induction events rule: rev_induct)
  case Nil
  show ?case using assms(1) by (simp add: applyEdits_def staged_current_def)
next
  case (snoc e events)
  let ?s = "applyEdits h events s0"
  from snoc have IH: "staged_current ?s"
    "map (\<lambda>r. r ''Id'') (processData ?s) = map (\<lambda>r. r ''Id'') (processData s0)"
    "fst ` set (changedRecords ?s) = {dataset_id event | event. event \<in> set events \<and> addresses s0 event}"
    by simp_all
  from snoc.prems have f: "dataset_field e \<noteq> ''Id''" by simp
  note st = edit_step[OF IH(1) f, of h]
  have a: "addresses ?s e = addresses s0 e" by (rule addresses_ids[OF IH(2)])
  have "fst ` set (changedRecords (applyEdits h (events @ [e]) s0)) =
      {dataset_id event | event. event \<in> set (events @ [e]) \<and> addresses s0 event}"
    unfolding applyEdits_snoc st(2) IH(3) a by auto
  with st(1,3) IH(2) show ?case by (simp add: applyEdits_snoc)
qed

subsection \<open>Input formats\<close>

lemma matches_pattern_length: "matches_pattern p s \<Longrightarrow> length s = length p"
  by (induction p s rule: matches_pattern.induct) auto

subsection \<open>The order input\<close>

lemma digit_not_special:
  "is_digit c \<Longrightarrow> \<not> is_white_space c \<and> c \<noteq> CHR ''-'' \<and> c \<noteq> CHR ''+''"
  by (auto simp: is_digit_def is_white_space_def)

lemma digits_value_nonneg_aux:
  "0 \<le> acc \<Longrightarrow> list_all is_digit z \<Longrightarrow> 0 \<le> foldl (\<lambda>acc c. 10 * acc + digit_value c) acc z"
proof (induction z arbitrary: acc)
  case Nil
  then show ?case by simp
next
  case (Cons c z)
  from Cons.prems(2) have "48 \<le> (of_char c :: nat)" by (simp add: is_digit_def)
  then have "0 \<le> digit_value c" by (simp add: digit_value_def)
  with Cons.prems(1) have "0 \<le> 10 * acc + digit_value c" by simp
  from Cons.IH[OF this] Cons.prems(2) show ?case by simp
qed

lemma digits_value_nonneg: "list_all is_digit z \<Longrightarrow> 0 \<le> digits_value z"
  unfolding digits_value_def by (rule digits_value_nonneg_aux) simp_all

lemma leadingInteger_digits:
  assumes "v \<noteq> []" and "list_all is_digit v"
  shows "leadingInteger v = Some (digits_value v)"
proof -
  from assms obtain c cs where v: "v = c # cs" and c: "is_digit c" by (cases v) auto
  from digit_not_special[OF c] have d: "dropWhile is_white_space v = v" by (simp add: v)
  from assms(2) have t: "takeWhile is_digit v = v" by (simp add: list_all_iff)
  from digit_not_special[OF c] d t assms(1) show ?thesis
    by (simp add: leadingInteger_def Let_def v)
qed

lemma parseInt10_digits:
  assumes "v \<noteq> []" and "list_all is_digit v" and "digits_value v \<le> 2 ^ 53"
  shows "parseInt10 h v = Num (digits_value v)"
  using leadingInteger_digits[OF assms(1,2)] digits_value_nonneg[OF assms(2)] assms(3)
  by (simp add: parseInt10_def integerNumber_def)

lemma parseInt10_no_digit:
  assumes "v \<noteq> []" and "\<not> is_white_space (hd v)" and "hd v \<noteq> CHR ''+''" and "hd v \<noteq> CHR ''-''"
    and "\<not> is_digit (hd v)"
  shows "parseInt10 h v = NaN"
proof -
  from assms(1) obtain c cs where v: "v = c # cs" by (cases v) auto
  with assms show ?thesis by (simp add: parseInt10_def leadingInteger_def Let_def)
qed

lemma parseInt10_rounds:
  "parseInt10 exampleHost ''9007199254740993'' = Num 9007199254740992"
  by code_simp

lemma handleTableEdit_staged:
  assumes "addresses s event"
  shows "\<exists>v. map_of (changedRecords (snd (handleTableEdit h event s))) (dataset_id event) = Some v
     \<and> v (dataset_field event) = editedValue h event"
proof -
  let ?ms = "filter (\<lambda>record. strict_eq (record ''Id'') (dataset_id event)) (processData s)"
  from assms have "?ms \<noteq> []" by (auto simp: addresses_def filter_empty_conv)
  then have "changedRecords (snd (handleTableEdit h event s)) =
      Map_set (dataset_id event) (updatedRecord (dataset_field event) (editedValue h event) (last ?ms))
        (changedRecords s)"
    by (simp add: handleTableEdit_frame editRecords_staged split: list.splits)
  then show ?thesis by (simp add: Map_set_lookup updatedRecord_field)
qed

subsection \<open>The comparator on orders that are NaN or plain integers\<close>

lemma falsy_key: "\<not> truthy (p ''Order__c'') \<Longrightarrow> orderKey h p = Num 999"
  by (simp add: orderKey_def js_or_def)

lemma nan_or_plain_cases:
  assumes "nan_or_plain v"
  obtains (nan) "v = JNumber NaN" | (int) n where "v = JNum n" "n \<noteq> 0" "n \<noteq> 999"
  using assms by (cases v rule: nan_or_plain.cases) auto

lemma nan_or_plain_key:
  "p ''Order__c'' = JNumber NaN \<Longrightarrow> orderKey h p = Num 999"
  "p ''Order__c'' = JNum n \<Longrightarrow> n \<noteq> 0 \<Longrightarrow> orderKey h p = Num n"
  by (simp_all add: orderKey_def js_or_def)

lemma key_then_name_nan_tied_transp:
  assumes "consistent_compare (localeCompare h)"
  shows "transp (key_then_name_nan_tied h)"
proof (rule transpI)
  fix a b c
  assume ab: "key_then_name_nan_tied h a b" and bc: "key_then_name_nan_tied h b c"
  from assms have tr:
    "\<And>s t u. localeCompare h s t \<le> 0 \<Longrightarrow> localeCompare h t u \<le> 0 \<Longrightarrow> localeCompare h s u \<le> 0"
    unfolding consistent_compare_def by blast
  from ab bc have np: "nan_or_plain (a ''Order__c'')" "nan_or_plain (b ''Order__c'')" "nan_or_plain (c ''Order__c'')"
    by (simp_all add: key_then_name_nan_tied_def)
  from ab obtain ka kb where k1: "orderKey h a = Num ka" "orderKey h b = Num kb"
    and o1: "ka < kb \<or> (ka = kb \<and> (a ''Order__c'' = JNumber NaN \<or> localeCompare h (nameOf a) (nameOf b) \<le> 0))"
    by (auto simp: key_then_name_nan_tied_def split: number.splits)
  from bc k1 obtain kc where k2: "orderKey h c = Num kc"
    and o2: "kb < kc \<or> (kb = kc \<and> (b ''Order__c'' = JNumber NaN \<or> localeCompare h (nameOf b) (nameOf c) \<le> 0))"
    by (auto simp: key_then_name_nan_tied_def split: number.splits)
  have nan_b: "a ''Order__c'' = JNumber NaN" if "b ''Order__c'' = JNumber NaN" "ka = kb"
    using np(1)
  proof (cases rule: nan_or_plain_cases)
    case nan
    then show ?thesis .
  next
    case (int n)
    from nan_or_plain_key(2)[where p = a, OF int(1,2)] nan_or_plain_key(1)[where p = b, OF that(1)] k1 that(2) int(3)
    show ?thesis by simp
  qed
  from o1 o2 tr nan_b
  have "ka < kc \<or> (ka = kc \<and> (a ''Order__c'' = JNumber NaN \<or> localeCompare h (nameOf a) (nameOf c) \<le> 0))"
    by (elim disjE conjE) auto
  with k1 k2 np show "key_then_name_nan_tied h a c" by (simp add: key_then_name_nan_tied_def)
qed

lemma compareProcesses_nan_or_plain:
  assumes lc: "consistent_compare (localeCompare h)"
    and a: "nan_or_plain (a ''Order__c'')" "is_string (a ''Name'')"
    and b: "nan_or_plain (b ''Order__c'')" "is_string (b ''Name'')"
    and c: "compareProcesses h a b = Inr v"
  shows "keeps_order v \<Longrightarrow> key_then_name_nan_tied h a b"
    and "\<not> keeps_order v \<Longrightarrow> key_then_name_nan_tied h b a"
proof -
  from a(2) b(2) obtain s t where st: "a ''Name'' = JStr s" "b ''Name'' = JStr t"
    by (elim is_stringE)
  from lc have sym: "(localeCompare h s t < 0) = (localeCompare h t s > 0)"
    unfolding consistent_compare_def by blast
  have diff: "v = number_sub (orderKey h a) (orderKey h b)"
    if "\<not> strict_eq (a ''Order__c'') (b ''Order__c'')"
    using c that by (simp add: compareProcesses_def js_sub_def orderKey_def)
  have "(keeps_order v \<longrightarrow> key_then_name_nan_tied h a b) \<and>
        (\<not> keeps_order v \<longrightarrow> key_then_name_nan_tied h b a)"
    using a(1)
  proof (cases rule: nan_or_plain_cases)
    case nan
    then have ne: "\<not> strict_eq (a ''Order__c'') (b ''Order__c'')" by (simp add: strict_eq_def)
    show ?thesis
      using b(1)
    proof (cases rule: nan_or_plain_cases)
      case nan': nan
      from diff[OF ne] nan_or_plain_key(1)[where p = a, OF nan] nan_or_plain_key(1)[where p = b, OF nan'] a(1) b(1) nan
      show ?thesis by (simp add: key_then_name_nan_tied_def)
    next
      case (int m)
      from diff[OF ne] nan_or_plain_key(1)[where p = a, OF nan] nan_or_plain_key(2)[where p = b, OF int(1,2)] a(1) b(1) int(3)
      show ?thesis by (auto simp: key_then_name_nan_tied_def)
    qed
  next
    case (int n)
    show ?thesis
      using b(1)
    proof (cases rule: nan_or_plain_cases)
      case nan
      with int have ne: "\<not> strict_eq (a ''Order__c'') (b ''Order__c'')" by (simp add: strict_eq_def)
      from diff[OF ne] nan_or_plain_key(2)[where p = a, OF int(1,2)] nan_or_plain_key(1)[where p = b, OF nan] a(1) b(1) int(3) nan
      show ?thesis by (auto simp: key_then_name_nan_tied_def)
    next
      case int': (int m)
      show ?thesis
      proof (cases "n = m")
        case True
        with int int' have "strict_eq (a ''Order__c'') (b ''Order__c'')" by (simp add: strict_eq_def)
        with c st have v: "v = Num (localeCompare h s t)"
          by (simp add: compareProcesses_def localeCompare_call_def)
        from v st sym True nan_or_plain_key(2)[where p = a, OF int(1,2)] nan_or_plain_key(2)[where p = b, OF int'(1,2)] a(1) b(1)
        show ?thesis by (auto simp: key_then_name_nan_tied_def nameOf_def)
      next
        case False
        with int int' have ne: "\<not> strict_eq (a ''Order__c'') (b ''Order__c'')" by (simp add: strict_eq_def)
        from diff[OF ne] False nan_or_plain_key(2)[where p = a, OF int(1,2)] nan_or_plain_key(2)[where p = b, OF int'(1,2)] a(1) b(1)
        show ?thesis by (auto simp: key_then_name_nan_tied_def)
      qed
    qed
  qed
  then show "keeps_order v \<Longrightarrow> key_then_name_nan_tied h a b"
    and "\<not> keeps_order v \<Longrightarrow> key_then_name_nan_tied h b a" by simp_all
qed

text \<open>
  With these two lemmas the comparator is a consistent one on a group of such records:
  it decides a transitive order in which any two records are comparable, so the result
  of the sort is the same in every engine.
\<close>

lemma group_sorted_nan_or_plain:
  assumes gs: "groupedData h ps = Inr gs" and g: "g \<in> set gs"
    and lc: "consistent_compare (localeCompare h)"
    and wt: "\<forall>p\<in>set ps. well_typed p"
    and np: "\<forall>p\<in>set (processes g). nan_or_plain (p ''Order__c'')"
  shows "sorted_wrt (key_then_name_nan_tied h) (processes g)"
proof -
  from groupedData_groups[OF gs g] obtain arr where
    m: "makeGroup h (groupName g, arr) = Inr g" by blast
  have s: "Array_sort (compareProcesses h) arr = Inr (processes g)"
    by (rule makeGroup_fields(2)[OF m])
  have arr: "set arr = set (processes g)"
    using Array_sort_mset[OF s] by (metis mset_eq_setD)
  have member: "nan_or_plain (q ''Order__c'') \<and> is_string (q ''Name'')" if "q \<in> set arr" for q
  proof -
    from that arr have q: "q \<in> set (processes g)" by simp
    then have "q \<in># mset (processes g)" by simp
    then have "q \<in> set (map withStatusClass (filter (\<lambda>p. groupNameOf p = groupName g) ps))"
      by (simp only: groupedData_members(1)[OF gs g] set_mset_mset)
    then obtain p where "p \<in> set ps" "q = withStatusClass p" by auto
    with wt have "is_string (q ''Name'')" by (auto simp: well_typed_def)
    with q np show ?thesis by simp
  qed
  show ?thesis
  proof (rule Array_sort_sorted[OF s key_then_name_nan_tied_transp[OF lc]])
    fix x y v
    assume "x \<in> set arr" "y \<in> set arr" and c: "compareProcesses h x y = Inr v" and k: "keeps_order v"
    with member have "nan_or_plain (x ''Order__c'')" "is_string (x ''Name'')"
      "nan_or_plain (y ''Order__c'')" "is_string (y ''Name'')" by simp_all
    from compareProcesses_nan_or_plain(1)[OF lc this c k] show "key_then_name_nan_tied h x y" .
  next
    fix x y v
    assume "x \<in> set arr" "y \<in> set arr" and c: "compareProcesses h x y = Inr v" and k: "\<not> keeps_order v"
    with member have "nan_or_plain (x ''Order__c'')" "is_string (x ''Name'')"
      "nan_or_plain (y ''Order__c'')" "is_string (y ''Name'')" by simp_all
    from compareProcesses_nan_or_plain(2)[OF lc this c k] show "key_then_name_nan_tied h y x" .
  qed
qed

lemma nan_after_smaller:
  assumes s: "sorted_wrt (key_then_name_nan_tied h) xs"
    and i: "i < length xs" and j: "j < length xs"
    and ni: "(xs ! i) ''Order__c'' = JNumber NaN"
    and nj: "(xs ! j) ''Order__c'' = JNum n" "n < 999"
  shows "j < i"
proof (rule ccontr)
  assume "\<not> j < i"
  moreover from ni nj have "i \<noteq> j" by auto
  ultimately have lt: "i < j" by simp
  from s lt j have r: "key_then_name_nan_tied h (xs ! i) (xs ! j)"
    by (simp add: sorted_wrt_iff_nth_less)
  then have "nan_or_plain ((xs ! j) ''Order__c'')" by (simp add: key_then_name_nan_tied_def)
  with nj have "n \<noteq> 0" by simp
  from r nan_or_plain_key(1)[where p = "xs ! i", OF ni] nan_or_plain_key(2)[where p = "xs ! j", OF nj(1) this] nj(2)
  show False by (simp add: key_then_name_nan_tied_def)
qed

section \<open>C1: the grouped view partitions the working set\<close>

text \<open>
  C1. For every working set whose records have a string as name and a string or nothing
  as group name, the projection is computed, and it partitions the records: the members
  of all groups together are the working records, each once (each with its status style
  added); no two groups have the same name; the members of a group are the working
  records whose group name, with \<open>Ungrouped\<close> standing in for an absent one, is the name
  of the group; every group has a member; every working record is in exactly one
  group; and the groups are in ascending order of their names under the host's
  comparison.
\<close>

theorem grouped_view_partition:
  assumes lc: "consistent_compare (localeCompare h)" and wt: "\<forall>p\<in>set ps. well_typed p"
  shows "\<exists>gs. groupedData h ps = Inr gs
    \<and> mset (concat (map processes gs)) = mset (map withStatusClass ps)
    \<and> distinct (map groupName gs)
    \<and> groupName ` set gs = groupNameOf ` set ps
    \<and> (\<forall>g\<in>set gs. processes g \<noteq> [] \<and>
          mset (processes g) = mset (map withStatusClass (filter (\<lambda>p. groupNameOf p = groupName g) ps)))
    \<and> (\<forall>p\<in>set ps. \<exists>!g. g \<in> set gs \<and> withStatusClass p \<in> set (processes g))
    \<and> (\<forall>p\<in>set ps. \<not> truthy (p ''Group__c'') \<longrightarrow>
          (\<exists>g\<in>set gs. groupName g = JStr ''Ungrouped'' \<and> withStatusClass p \<in> set (processes g)))
    \<and> sorted_wrt (names_ascending h) gs"
proof -
  from groupedData_total[OF wt] obtain gs where gs: "groupedData h ps = Inr gs" ..
  have mem: "\<forall>g\<in>set gs. processes g \<noteq> [] \<and>
      mset (processes g) = mset (map withStatusClass (filter (\<lambda>p. groupNameOf p = groupName g) ps))"
  proof
    fix g assume g: "g \<in> set gs"
    show "processes g \<noteq> [] \<and>
      mset (processes g) = mset (map withStatusClass (filter (\<lambda>p. groupNameOf p = groupName g) ps))"
      using groupedData_nonempty[OF gs g] groupedData_members(1)[OF gs g] by (rule conjI)
  qed
  have sentinel: "\<forall>p\<in>set ps. \<not> truthy (p ''Group__c'') \<longrightarrow>
      (\<exists>g\<in>set gs. groupName g = JStr ''Ungrouped'' \<and> withStatusClass p \<in> set (processes g))"
  proof (intro ballI impI)
    fix p assume p: "p \<in> set ps" and f: "\<not> truthy (p ''Group__c'')"
    then have n: "groupNameOf p = JStr ''Ungrouped''" by (simp add: groupNameOf_def js_or_def)
    from p have "groupNameOf p \<in> groupNameOf ` set ps" by (rule imageI)
    then have "groupNameOf p \<in> groupName ` set gs" by (simp only: groupedData_names(2)[OF gs])
    then obtain g where g: "g \<in> set gs" "groupNameOf p = groupName g" by (rule imageE)
    from p g(2) have "p \<in> set (filter (\<lambda>p. groupNameOf p = groupName g) ps)" by simp
    then have "withStatusClass p \<in> set (map withStatusClass (filter (\<lambda>p. groupNameOf p = groupName g) ps))"
      unfolding set_map by (rule imageI)
    then have "withStatusClass p \<in># mset (map withStatusClass (filter (\<lambda>p. groupNameOf p = groupName g) ps))"
      by (simp only: set_mset_mset)
    then have "withStatusClass p \<in># mset (processes g)"
      by (simp only: groupedData_members(1)[OF gs g(1)])
    then have "withStatusClass p \<in> set (processes g)" by (simp only: set_mset_mset)
    with g n show "\<exists>g\<in>set gs. groupName g = JStr ''Ungrouped'' \<and> withStatusClass p \<in> set (processes g)"
      by (intro bexI[of _ g]) simp_all
  qed
  have inj: "inj_on groupName (set gs)"
    using groupedData_names(1)[OF gs] by (simp add: distinct_map)
  have one: "\<forall>p\<in>set ps. \<exists>!g. g \<in> set gs \<and> withStatusClass p \<in> set (processes g)"
  proof
    fix p assume p: "p \<in> set ps"
    then have "groupNameOf p \<in> groupNameOf ` set ps" by (rule imageI)
    then have "groupNameOf p \<in> groupName ` set gs" by (simp only: groupedData_names(2)[OF gs])
    then obtain g where g: "g \<in> set gs" "groupNameOf p = groupName g" by (rule imageE)
    from p g(2) have "p \<in> set (filter (\<lambda>p. groupNameOf p = groupName g) ps)" by simp
    then have "withStatusClass p \<in> set (map withStatusClass (filter (\<lambda>p. groupNameOf p = groupName g) ps))"
      unfolding set_map by (rule imageI)
    then have "withStatusClass p \<in># mset (processes g)"
      by (simp only: groupedData_members(1)[OF gs g(1)] set_mset_mset)
    then have here: "withStatusClass p \<in> set (processes g)" by (simp only: set_mset_mset)
    show "\<exists>!g. g \<in> set gs \<and> withStatusClass p \<in> set (processes g)"
    proof (rule ex1I[of _ g])
      show "g \<in> set gs \<and> withStatusClass p \<in> set (processes g)" using g(1) here by (rule conjI)
    next
      fix g' assume g': "g' \<in> set gs \<and> withStatusClass p \<in> set (processes g')"
      then have "withStatusClass p \<in># mset (processes g')" by simp
      then have "withStatusClass p \<in> set (map withStatusClass (filter (\<lambda>p. groupNameOf p = groupName g') ps))"
        using g' by (simp only: groupedData_members(1)[OF gs conjunct1[OF g']] set_mset_mset)
      then obtain q where q: "groupNameOf q = groupName g'" "withStatusClass q = withStatusClass p"
        by auto
      from q(2) have "groupNameOf (withStatusClass q) = groupNameOf (withStatusClass p)" by simp
      then have "groupNameOf q = groupNameOf p" by (simp only: groupNameOf_withStatusClass)
      with q(1) g(2) have "groupName g' = groupName g" by simp
      with inj g' g(1) show "g' = g" by (simp add: inj_on_def)
    qed
  qed
  show ?thesis
    by (intro exI[of _ gs] conjI gs groupedData_concat[OF gs] groupedData_names[OF gs] mem one sentinel
      groupedData_sorted[OF gs lc wt])
qed

theorem grouped_view_partition_witness:
  "consistent_compare (localeCompare exampleHost) \<and> list_all well_typed scenarioRecords \<and>
   (\<exists>gs. groupedData exampleHost scenarioRecords = Inr gs
      \<and> map groupName gs = [JStr ''G1'', JStr ''G2'']
      \<and> map (\<lambda>g. map nameOf (processes g)) gs = [[''P1'', ''P2''], [''P3'']]
      \<and> mset (concat (map processes gs)) = mset (map withStatusClass scenarioRecords)
      \<and> distinct (map groupName gs)
      \<and> sorted_wrt (names_ascending exampleHost) gs)"
proof -
  have wt: "list_all well_typed scenarioRecords"
    by (simp add: scenarioRecords_def fetched_well_typed)
  then have wt': "\<forall>p\<in>set scenarioRecords. well_typed p" by (simp add: list_all_iff)
  have "summary (groupedData exampleHost scenarioRecords) =
      Some [(JStr ''G1'', [''P1'', ''P2''], ''group-header mixed-group-header'', ''1/2 Active''),
            (JStr ''G2'', [''P3''], ''group-header active-group-header'', ''1/1 Active'')]"
    by code_simp
  then obtain gs0 where gs0: "groupedData exampleHost scenarioRecords = Inr gs0"
    and l: "map groupName gs0 = [JStr ''G1'', JStr ''G2'']"
       "map (\<lambda>g. map nameOf (processes g)) gs0 = [[''P1'', ''P2''], [''P3'']]"
    by (auto simp: summary_def split: sum.splits)
  from grouped_view_partition[OF exampleHost_consistent wt'] obtain gs where
    gs: "groupedData exampleHost scenarioRecords = Inr gs"
    and p: "mset (concat (map processes gs)) = mset (map withStatusClass scenarioRecords)"
      "distinct (map groupName gs)" "sorted_wrt (names_ascending exampleHost) gs"
    by blast
  from gs gs0 have e: "gs = gs0" by simp
  show ?thesis
    by (intro conjI exI[of _ gs0] exampleHost_consistent wt gs0 l p[unfolded e])
qed

section \<open>C2: the order within a group\<close>

text \<open>
  C2, as stated, fails: a record without an order is compared as if its order were 999,
  so it comes before a record whose order is 1000 and is not last.
\<close>

theorem unordered_not_last_counterexample:
  "orderSummary (groupedData exampleHost largeOrderRecords) =
     Some [[(''B'', Undefined), (''A'', JNum 1000)]]"
  by code_simp

text \<open>
  C2, amended. Let the records have the types of the data model, and let every order be
  either the one marker for an absent order (\<^verbatim>\<open>undefined\<close>, or \<^verbatim>\<open>null\<close>, or the empty
  string) or an integer other than 0 and 999. Then the members of every group are in
  ascending order of their sort key, which is 999 for an absent order and the order
  itself otherwise, and members with equal keys are in ascending order of their names.
  So a record without an order comes after every record with an order below 999. The
  witness is the example of the orders 3, null, 1, null with the names B, A, C, D, which
  come out as C, B, A, D.
\<close>

theorem sorted_within_group:
  assumes lc: "consistent_compare (localeCompare h)"
    and wt: "\<forall>p\<in>set ps. well_typed p"
    and z: "\<not> truthy absent" "absent \<noteq> JNumber NaN"
    and po: "\<forall>p\<in>set ps. plain_order absent (p ''Order__c'')"
  shows "\<exists>gs. groupedData h ps = Inr gs
    \<and> (\<forall>g\<in>set gs. sorted_wrt (order_then_name h) (processes g))
    \<and> (\<forall>g\<in>set gs. \<forall>p\<in>set (processes g).
          orderKey h p = (if p ''Order__c'' = absent then Num 999 else ToNumber h (p ''Order__c'')))"
proof -
  from groupedData_total[OF wt] obtain gs where gs: "groupedData h ps = Inr gs" ..
  have members: "plain_order absent (q ''Order__c'') \<and> is_string (q ''Name'')"
    if g: "g \<in> set gs" and q: "q \<in> set (processes g)" for g q
  proof -
    from q have "q \<in># mset (processes g)" by simp
    then have "q \<in> set (map withStatusClass (filter (\<lambda>p. groupNameOf p = groupName g) ps))"
      by (simp only: groupedData_members(1)[OF gs g] set_mset_mset)
    then obtain p where p: "p \<in> set ps" "q = withStatusClass p" by auto
    with po wt show ?thesis by (auto simp: well_typed_def)
  qed
  have sorted: "sorted_wrt (order_then_name h) (processes g)" if g: "g \<in> set gs" for g
  proof -
    from groupedData_groups[OF gs g] obtain arr where
      m: "makeGroup h (groupName g, arr) = Inr g" by blast
    have s: "Array_sort (compareProcesses h) arr = Inr (processes g)"
      by (rule makeGroup_fields(2)[OF m])
    have arr: "set arr = set (processes g)"
      using Array_sort_mset[OF s] by (metis mset_eq_setD)
    show ?thesis
    proof (rule Array_sort_sorted[OF s order_then_name_transp[OF lc]])
      fix x y v
      assume x: "x \<in> set arr" and y: "y \<in> set arr" and c: "compareProcesses h x y = Inr v"
        and k: "keeps_order v"
      from x y arr members[OF g] have
        "plain_order absent (x ''Order__c'')" "is_string (x ''Name'')"
        "plain_order absent (y ''Order__c'')" "is_string (y ''Name'')" by simp_all
      from compareProcesses_plain(1)[OF lc z this c k] show "order_then_name h x y" .
    next
      fix x y v
      assume x: "x \<in> set arr" and y: "y \<in> set arr" and c: "compareProcesses h x y = Inr v"
        and k: "\<not> keeps_order v"
      from x y arr members[OF g] have
        "plain_order absent (x ''Order__c'')" "is_string (x ''Name'')"
        "plain_order absent (y ''Order__c'')" "is_string (y ''Name'')" by simp_all
      from compareProcesses_plain(2)[OF lc z this c k] show "order_then_name h y x" .
    qed
  qed
  have keys: "\<forall>g\<in>set gs. \<forall>p\<in>set (processes g).
      orderKey h p = (if p ''Order__c'' = absent then Num 999 else ToNumber h (p ''Order__c''))"
  proof (intro ballI)
    fix g p assume "g \<in> set gs" "p \<in> set (processes g)"
    from members[OF this] have "plain_order absent (p ''Order__c'')" ..
    from plain_order_key(1)[OF z(1) this]
    show "orderKey h p = (if p ''Order__c'' = absent then Num 999 else ToNumber h (p ''Order__c''))"
      by (simp only: orderKey_def)
  qed
  from sorted have "\<forall>g\<in>set gs. sorted_wrt (order_then_name h) (processes g)" by blast
  with gs keys show ?thesis by (intro exI[of _ gs] conjI)
qed

theorem sorted_within_group_witness:
  "consistent_compare (localeCompare exampleHost) \<and> list_all well_typed sortExample
   \<and> \<not> truthy Null \<and> Null \<noteq> JNumber NaN
   \<and> list_all (\<lambda>p. plain_order Null (p ''Order__c'')) sortExample
   \<and> (\<exists>gs. groupedData exampleHost sortExample = Inr gs
        \<and> list_all (\<lambda>g. sorted_wrt (order_then_name exampleHost) (processes g)) gs
        \<and> orderSummary (Inr gs) = Some [[(''C'', JNum 1), (''B'', JNum 3), (''A'', Null), (''D'', Null)]])"
proof -
  have wt: "list_all well_typed sortExample"
    by (simp add: sortExample_def fetched_well_typed)
  have po: "list_all (\<lambda>p. plain_order Null (p ''Order__c'')) sortExample"
    by (simp add: sortExample_def fetched_def plain_order_def)
  have ev: "orderSummary (groupedData exampleHost sortExample) =
      Some [[(''C'', JNum 1), (''B'', JNum 3), (''A'', Null), (''D'', Null)]]"
    by code_simp
  from sorted_within_group[OF exampleHost_consistent wt[unfolded list_all_iff] _ _ po[unfolded list_all_iff]]
  obtain gs where gs: "groupedData exampleHost sortExample = Inr gs"
    and s: "\<forall>g\<in>set gs. sorted_wrt (order_then_name exampleHost) (processes g)"
    by auto
  from s have s': "list_all (\<lambda>g. sorted_wrt (order_then_name exampleHost) (processes g)) gs"
    by (simp add: list_all_iff)
  from ev gs have ev': "orderSummary (Inr gs) = Some [[(''C'', JNum 1), (''B'', JNum 3), (''A'', Null), (''D'', Null)]]"
    by simp
  show ?thesis
    by (intro conjI exI[of _ gs] exampleHost_consistent wt po gs s' ev') simp_all
qed

section \<open>C3: the header of a group\<close>

text \<open>
  C3. Every group of the projection has a member. If every member is active the header
  style is the active one and the status text is \<open>N/N Active\<close>, with \<open>N\<close> the number of
  members; if no member is active the style is the inactive one and the text is
  \<open>0/N Active\<close>; if some are and some are not the style is the mixed one. The status
  text is always \<open>A/N Active\<close> with \<open>A\<close> the number of active members.
\<close>

theorem header_classification:
  assumes "groupedData h ps = Inr gs" and "g \<in> set gs"
  shows "processes g \<noteq> []
    \<and> statusText g = nat_to_string (length (filter isActive (processes g))) @ ''/'' @
         nat_to_string (length (processes g)) @ '' Active''
    \<and> ((\<forall>p\<in>set (processes g). isActive p) \<longrightarrow>
          headerClass g = ''group-header active-group-header'' \<and>
          statusText g = nat_to_string (length (processes g)) @ ''/'' @
            nat_to_string (length (processes g)) @ '' Active'')
    \<and> ((\<forall>p\<in>set (processes g). \<not> isActive p) \<longrightarrow>
          headerClass g = ''group-header inactive-group-header'' \<and>
          statusText g = ''0/'' @ nat_to_string (length (processes g)) @ '' Active'')
    \<and> ((\<exists>p\<in>set (processes g). isActive p) \<and> (\<exists>p\<in>set (processes g). \<not> isActive p) \<longrightarrow>
          headerClass g = ''group-header mixed-group-header'')"
proof -
  from groupedData_groups[OF assms] obtain arr where
    m: "makeGroup h (groupName g, arr) = Inr g" by blast
  note f = makeGroup_fields[OF m]
  have ne: "processes g \<noteq> []" by (rule groupedData_nonempty[OF assms])
  have all_act: "(\<forall>p\<in>set (processes g). isActive p) \<Longrightarrow> filter isActive (processes g) = processes g"
    by simp
  have none_act: "(\<forall>p\<in>set (processes g). \<not> isActive p) \<Longrightarrow> filter isActive (processes g) = []"
    by simp
  have one: "(\<forall>p\<in>set (processes g). isActive p) \<Longrightarrow> \<not> (\<forall>p\<in>set (processes g). \<not> isActive p)"
    using ne by (cases "processes g") auto
  show ?thesis
    using ne f(4,5) all_act none_act one
    by (auto simp: list_all_iff nat_to_string_0)
qed

theorem header_classification_witness:
  "\<exists>gs g1 g2. groupedData exampleHost scenarioRecords = Inr gs \<and> gs = [g1, g2]
     \<and> processes g1 \<noteq> [] \<and> processes g2 \<noteq> []
     \<and> headerClass g1 = ''group-header mixed-group-header'' \<and> statusText g1 = ''1/2 Active''
     \<and> headerClass g2 = ''group-header active-group-header'' \<and> statusText g2 = ''1/1 Active''"
proof -
  have "summary (groupedData exampleHost scenarioRecords) =
      Some [(JStr ''G1'', [''P1'', ''P2''], ''group-header mixed-group-header'', ''1/2 Active''),
            (JStr ''G2'', [''P3''], ''group-header active-group-header'', ''1/1 Active'')]"
    by code_simp
  then obtain gs g1 g2 where gs: "groupedData exampleHost scenarioRecords = Inr gs"
    and l: "gs = [g1, g2]"
    and f: "headerClass g1 = ''group-header mixed-group-header''" "statusText g1 = ''1/2 Active''"
      "headerClass g2 = ''group-header active-group-header''" "statusText g2 = ''1/1 Active''"
    by (auto simp: summary_def split: sum.splits)
  have "processes g1 \<noteq> []" using header_classification[OF gs, of g1] l by simp
  moreover have "processes g2 \<noteq> []" using header_classification[OF gs, of g2] l by simp
  ultimately show ?thesis using gs l f by blast
qed

section \<open>C4: discarding the changes\<close>

text \<open>
  C4. After a load that delivered records, and any sequence of edits, discarding the
  changes leaves no pending change, makes the working set equal to the working set of
  the load (which is the loaded records, each with its identifier and row style
  derived as the load derives them), field for field, and makes no persist call.
\<close>

theorem discard_restores_baseline:
  "\<not> hasChanges (snd (handleCancelChanges h (applyEdits h events
        (snd (wiredProcess h \<lparr> result_data = Some records, result_error = err \<rparr> s0)))))
   \<and> processData (snd (handleCancelChanges h (applyEdits h events
        (snd (wiredProcess h \<lparr> result_data = Some records, result_error = err \<rparr> s0)))))
     = processData (snd (wiredProcess h \<lparr> result_data = Some records, result_error = err \<rparr> s0))
   \<and> processData (snd (handleCancelChanges h (applyEdits h events
        (snd (wiredProcess h \<lparr> result_data = Some records, result_error = err \<rparr> s0)))))
     = map workingRecord records
   \<and> persistCalls (snd (handleCancelChanges h (applyEdits h events
        (snd (wiredProcess h \<lparr> result_data = Some records, result_error = err \<rparr> s0)))))
     = persistCalls s0"
  by (simp add: hasChanges_def handleCancelChanges_frame applyEdits_frame wiredProcess_data)

theorem discard_restores_baseline_witness:
  "hasChanges (applyEdits exampleHost exampleEdits (loaded scenarioRecords))
   \<and> \<not> hasChanges (snd (handleCancelChanges exampleHost
        (applyEdits exampleHost exampleEdits (loaded scenarioRecords))))
   \<and> processData (snd (handleCancelChanges exampleHost
        (applyEdits exampleHost exampleEdits (loaded scenarioRecords)))) =
       processData (loaded scenarioRecords)
   \<and> persistCalls (snd (handleCancelChanges exampleHost
        (applyEdits exampleHost exampleEdits (loaded scenarioRecords)))) = []"
proof -
  have h: "hasChanges (applyEdits exampleHost exampleEdits (loaded scenarioRecords))" by code_simp
  note t = discard_restores_baseline[of exampleHost exampleEdits scenarioRecords None initial,
      folded loaded_def]
  have p: "persistCalls initial = []" by (simp add: initial_def)
  from t have a: "\<not> hasChanges (snd (handleCancelChanges exampleHost
        (applyEdits exampleHost exampleEdits (loaded scenarioRecords))))" by (rule conjunct1)
  from t have b: "processData (snd (handleCancelChanges exampleHost
        (applyEdits exampleHost exampleEdits (loaded scenarioRecords)))) =
       processData (loaded scenarioRecords)" by simp
  from t p have c: "persistCalls (snd (handleCancelChanges exampleHost
        (applyEdits exampleHost exampleEdits (loaded scenarioRecords)))) = []" by simp
  show ?thesis by (intro conjI h a b c)
qed

section \<open>C5: the staging map holds the latest snapshots\<close>

text \<open>
  C5. Start with an empty staging map and apply any sequence of edits of fields other
  than the identifier. Then the staging map has at most one entry per identifier; its
  entry under an identifier is a whole record of the working set, the one with that
  identifier, so it carries every edit made so far; its keys are the identifiers of the
  edits that addressed a record; the entry of the record edited last holds the value
  of that edit; and a save sends exactly the staged snapshots, as one batch.
\<close>

theorem staging_latest_snapshots:
  fixes h :: host and events :: "edit_event list" and s0 :: state
  assumes "changedRecords s0 = []" and "\<forall>event\<in>set events. dataset_field event \<noteq> ''Id''"
  defines "s \<equiv> applyEdits h events s0"
  shows "distinct (map fst (changedRecords s))
    \<and> (\<forall>(k, v)\<in>set (changedRecords s). v \<in> set (processData s) \<and> strict_eq (v ''Id'') k)
    \<and> fst ` set (changedRecords s) =
        {dataset_id event | event. event \<in> set events \<and> addresses s0 event}
    \<and> (events \<noteq> [] \<longrightarrow>
         (\<forall>(k, v)\<in>set (changedRecords s).
            k = dataset_id (last events) \<longrightarrow> v (dataset_field (last events)) = editedValue h (last events)))
    \<and> (changedRecords s \<noteq> [] \<longrightarrow>
         persistCalls (handleSaveChanges s) = persistCalls s @ [map snd (changedRecords s)])"
proof -
  note inv = applyEdits_staging[OF assms(1,2), of h, folded s_def]
  from inv have cur: "staged_current s" by simp
  have last_edit: "events \<noteq> [] \<longrightarrow>
         (\<forall>(k, v)\<in>set (changedRecords s).
            k = dataset_id (last events) \<longrightarrow> v (dataset_field (last events)) = editedValue h (last events))"
  proof
    assume "events \<noteq> []"
    then obtain es e where es: "events = es @ [e]" by (metis rev_exhaust)
    from assms(2) es have f: "\<forall>event\<in>set es. dataset_field event \<noteq> ''Id''" "dataset_field e \<noteq> ''Id''"
      by simp_all
    from applyEdits_staging[OF assms(1) f(1), of h] have "staged_current (applyEdits h es s0)" by simp
    from edit_step(4)[OF this f(2), of h]
    show "\<forall>(k, v)\<in>set (changedRecords s).
            k = dataset_id (last events) \<longrightarrow> v (dataset_field (last events)) = editedValue h (last events)"
      by (simp add: s_def es applyEdits_snoc)
  qed
  have save: "changedRecords s \<noteq> [] \<longrightarrow>
         persistCalls (handleSaveChanges s) = persistCalls s @ [map snd (changedRecords s)]"
    by (simp add: handleSaveChanges_def Map_values_def)
  from cur have a: "distinct (map fst (changedRecords s))"
    and b: "\<forall>(k, v)\<in>set (changedRecords s). v \<in> set (processData s) \<and> strict_eq (v ''Id'') k"
    by (simp_all add: staged_current_def)
  from inv have c: "fst ` set (changedRecords s) =
        {dataset_id event | event. event \<in> set events \<and> addresses s0 event}" by simp
  show ?thesis by (intro conjI a b c last_edit save)
qed

theorem staging_latest_snapshots_witness:
  "changedRecords (loaded scenarioRecords) = []
   \<and> list_all (\<lambda>event. dataset_field event \<noteq> ''Id'') exampleEdits
   \<and> distinct (map fst (changedRecords (applyEdits exampleHost exampleEdits (loaded scenarioRecords))))
   \<and> stagedSummary (applyEdits exampleHost exampleEdits (loaded scenarioRecords)) =
       [(JStr ''P1'', JStr ''X'', JStr ''G9'', JNum 1), (JStr ''P3'', JStr ''P3'', JStr ''G2'', JNum 5)]
   \<and> persistCalls (handleSaveChanges (applyEdits exampleHost exampleEdits (loaded scenarioRecords))) =
       [map snd (changedRecords (applyEdits exampleHost exampleEdits (loaded scenarioRecords)))]"
proof -
  have e: "changedRecords (loaded scenarioRecords) = []" by code_simp
  have f: "list_all (\<lambda>event. dataset_field event \<noteq> ''Id'') exampleEdits" by code_simp
  have p: "persistCalls (loaded scenarioRecords) = []"
    by (simp add: loaded_def wiredProcess_data initial_def)
  have s: "stagedSummary (applyEdits exampleHost exampleEdits (loaded scenarioRecords)) =
       [(JStr ''P1'', JStr ''X'', JStr ''G9'', JNum 1), (JStr ''P3'', JStr ''P3'', JStr ''G2'', JNum 5)]"
    by code_simp
  then have ne: "changedRecords (applyEdits exampleHost exampleEdits (loaded scenarioRecords)) \<noteq> []"
    by (auto simp: stagedSummary_def)
  note t = staging_latest_snapshots[OF e f[unfolded list_all_iff], of exampleHost]
  from t have d: "distinct (map fst (changedRecords (applyEdits exampleHost exampleEdits (loaded scenarioRecords))))"
    by (rule conjunct1)
  from t ne have c: "persistCalls (handleSaveChanges (applyEdits exampleHost exampleEdits (loaded scenarioRecords))) =
       [map snd (changedRecords (applyEdits exampleHost exampleEdits (loaded scenarioRecords)))]"
    by (simp add: applyEdits_frame p)
  show ?thesis by (intro conjI e f d s c)
qed

section \<open>C6: a save that fails\<close>

text \<open>
  C6. When the persist call of a save is rejected with a message of the service, the
  staging map, the working set, the baseline and the projection are as before the
  save, the loading flag is off, and one error toast was dispatched whose message ends
  with the message of the service. If the loading flag was off before the save, the
  state is the one before the save, but for the toast and the record of the call.
\<close>

theorem failed_save_keeps_staging:
  assumes "changedRecords s \<noteq> []"
  shows "changedRecords (snd (saveRejected (serviceError msg) (handleSaveChanges s))) = changedRecords s
    \<and> processData (snd (saveRejected (serviceError msg) (handleSaveChanges s))) = processData s
    \<and> originalData (snd (saveRejected (serviceError msg) (handleSaveChanges s))) = originalData s
    \<and> groupedProcessData (snd (saveRejected (serviceError msg) (handleSaveChanges s))) = groupedProcessData s
    \<and> \<not> isLoading (snd (saveRejected (serviceError msg) (handleSaveChanges s)))
    \<and> toasts (snd (saveRejected (serviceError msg) (handleSaveChanges s))) =
        toasts s @ [\<lparr> title = ''Error'', message = ''Error updating records: '' @ msg, variant = ''error'' \<rparr>]
    \<and> persistCalls (snd (saveRejected (serviceError msg) (handleSaveChanges s))) =
        persistCalls s @ [map snd (changedRecords s)]
    \<and> (\<not> isLoading s \<longrightarrow>
         saveRejected (serviceError msg) (handleSaveChanges s) =
           (Normal, s\<lparr> toasts := toasts s @
                [\<lparr> title = ''Error'', message = ''Error updating records: '' @ msg, variant = ''error'' \<rparr>],
              persistCalls := persistCalls s @ [map snd (changedRecords s)] \<rparr>))"
  using assms
  by (simp add: saveRejected_def handleSaveChanges_def serviceError_def showToast_def Map_values_def
      emptyObject_def)

theorem failed_save_keeps_staging_witness:
  "changedRecords edited \<noteq> []
   \<and> stagedSummary (snd (saveRejected (serviceError ''boom'') (handleSaveChanges edited))) =
       [(JStr ''P1'', JStr ''X'', JStr ''G9'', JNum 1), (JStr ''P3'', JStr ''P3'', JStr ''G2'', JNum 5)]
   \<and> map message (toasts (snd (saveRejected (serviceError ''boom'') (handleSaveChanges edited)))) =
       [''Error updating records: boom'']
   \<and> \<not> isLoading (snd (saveRejected (serviceError ''boom'') (handleSaveChanges edited)))"
proof -
  have s: "stagedSummary edited =
       [(JStr ''P1'', JStr ''X'', JStr ''G9'', JNum 1), (JStr ''P3'', JStr ''P3'', JStr ''G2'', JNum 5)]"
    by code_simp
  then have ne: "changedRecords edited \<noteq> []" by (auto simp: stagedSummary_def)
  have t: "toasts edited = []"
    by (simp add: edited_def applyEdits_frame loaded_def wiredProcess_def Let_def processGroupedData_def
        initial_def split: sum.splits)
  note k = failed_save_keeps_staging[OF ne, of "''boom''"]
  from k have c: "changedRecords (snd (saveRejected (serviceError ''boom'') (handleSaveChanges edited))) =
      changedRecords edited" by (rule conjunct1)
  from k have l: "\<not> isLoading (snd (saveRejected (serviceError ''boom'') (handleSaveChanges edited)))"
    by simp
  from k t have m: "map message (toasts (snd (saveRejected (serviceError ''boom'') (handleSaveChanges edited)))) =
       [''Error updating records: boom'']" by simp
  from s c have s': "stagedSummary (snd (saveRejected (serviceError ''boom'') (handleSaveChanges edited))) =
       [(JStr ''P1'', JStr ''X'', JStr ''G9'', JNum 1), (JStr ''P3'', JStr ''P3'', JStr ''G2'', JNum 5)]"
    by (simp add: stagedSummary_def)
  show ?thesis by (intro conjI ne s' m l)
qed

section \<open>C7: the order input and malformed orders\<close>

text \<open>
  C7, as stated, fails. The text abc typed into the order input is staged as NaN, and
  the recompute of the projection does not fault on it, but the record is not sorted
  last: NaN is compared as 999, so the record comes before a record whose order is
  1000. Nor is NaN treated as an absent order in every respect: a record with the order
  NaN and a record without an order compare as equal and keep the order they stand in,
  where two records without an order are put in the order of their names.
\<close>

theorem malformed_order_counterexample:
  "orderSummary (Inr (groupedProcessData (snd (handleTableEdit exampleHost malformedEdit
       (loaded malformedRecords))))) =
     Some [[(''V'', JNum 3), (''Z'', JNum 5), (''X'', JNumber NaN), (''Y'', JNum 1000)]]
   \<and> orderSummary (groupedData exampleHost (tieRecords (JNumber NaN))) =
       Some [[(''B'', JNumber NaN), (''A'', Undefined)]]
   \<and> orderSummary (groupedData exampleHost (tieRecords Undefined)) =
       Some [[(''A'', Undefined), (''B'', Undefined)]]"
  by code_simp

text \<open>
  C7, amended. An edit of the order field from an input that is not a checkbox, with
  a non-empty text, stages \<^verbatim>\<open>parseInt(text, 10)\<close> in place of the text: the integer the
  text denotes when the text is a run of digits and the integer is at most \<open>2 ^ 53\<close>,
  and NaN when the text starts with a character that is neither white space nor a sign
  nor a digit. For every working set of the types of the data model, whatever its
  orders are, the recompute of the projection does not fault. In every group whose
  orders are NaN or integers other than 0 and 999, under a consistent comparison of
  names, the members are in ascending order of their sort keys, with equal integers in
  the order of their names, and a record whose order is NaN comes after every record
  whose order is below 999. The sort key of a record whose order is NaN is 999, the
  sort key of a record without an order.
\<close>

theorem order_input_and_malformed_orders:
  "(dataset_field event = ''Order__c'' \<and> target_type event \<noteq> ''checkbox'' \<and> target_value event \<noteq> [] \<longrightarrow>
      editedValue h event = JNumber (parseInt10 h (target_value event))
      \<and> (list_all is_digit (target_value event) \<and> digits_value (target_value event) \<le> 2 ^ 53 \<longrightarrow>
           editedValue h event = JNum (digits_value (target_value event)))
      \<and> (\<not> is_white_space (hd (target_value event)) \<and> hd (target_value event) \<noteq> CHR ''+'' \<and>
          hd (target_value event) \<noteq> CHR ''-'' \<and> \<not> is_digit (hd (target_value event)) \<longrightarrow>
           editedValue h event = JNumber NaN)
      \<and> (addresses s event \<longrightarrow>
           (\<exists>v. map_of (changedRecords (snd (handleTableEdit h event s))) (dataset_id event) = Some v
              \<and> v ''Order__c'' = editedValue h event)))
   \<and> ((\<forall>p\<in>set ps. well_typed p) \<longrightarrow>
        (\<exists>gs. groupedData h ps = Inr gs
           \<and> (consistent_compare (localeCompare h) \<longrightarrow>
                (\<forall>g\<in>set gs. (\<forall>p\<in>set (processes g). nan_or_plain (p ''Order__c'')) \<longrightarrow>
                   sorted_wrt (key_then_name_nan_tied h) (processes g)
                   \<and> (\<forall>i<length (processes g). \<forall>j<length (processes g).
                         (processes g ! i) ''Order__c'' = JNumber NaN \<and>
                         (\<exists>n. (processes g ! j) ''Order__c'' = JNum n \<and> n < 999) \<longrightarrow> j < i)))))
   \<and> (p ''Order__c'' = JNumber NaN \<or> p ''Order__c'' = Undefined \<longrightarrow> orderKey h p = Num 999)"
proof -
  have edit: "dataset_field event = ''Order__c'' \<and> target_type event \<noteq> ''checkbox'' \<and> target_value event \<noteq> [] \<longrightarrow>
      editedValue h event = JNumber (parseInt10 h (target_value event))
      \<and> (list_all is_digit (target_value event) \<and> digits_value (target_value event) \<le> 2 ^ 53 \<longrightarrow>
           editedValue h event = JNum (digits_value (target_value event)))
      \<and> (\<not> is_white_space (hd (target_value event)) \<and> hd (target_value event) \<noteq> CHR ''+'' \<and>
          hd (target_value event) \<noteq> CHR ''-'' \<and> \<not> is_digit (hd (target_value event)) \<longrightarrow>
           editedValue h event = JNumber NaN)
      \<and> (addresses s event \<longrightarrow>
           (\<exists>v. map_of (changedRecords (snd (handleTableEdit h event s))) (dataset_id event) = Some v
              \<and> v ''Order__c'' = editedValue h event))"
  proof (intro impI, elim conjE)
    assume f: "dataset_field event = ''Order__c''" and t: "target_type event \<noteq> ''checkbox''"
      and v: "target_value event \<noteq> []"
    then have ev: "editedValue h event = JNumber (parseInt10 h (target_value event))"
      by (simp add: editedValue_def Let_def strict_eq_def parseInt_def)
    have dg: "list_all is_digit (target_value event) \<and> digits_value (target_value event) \<le> 2 ^ 53 \<longrightarrow>
        editedValue h event = JNum (digits_value (target_value event))"
      using ev parseInt10_digits[OF v, of h] by simp
    have nd: "\<not> is_white_space (hd (target_value event)) \<and> hd (target_value event) \<noteq> CHR ''+'' \<and>
          hd (target_value event) \<noteq> CHR ''-'' \<and> \<not> is_digit (hd (target_value event)) \<longrightarrow>
           editedValue h event = JNumber NaN"
      using ev parseInt10_no_digit[OF v, of h] by simp
    have st: "addresses s event \<longrightarrow>
        (\<exists>v. map_of (changedRecords (snd (handleTableEdit h event s))) (dataset_id event) = Some v
           \<and> v ''Order__c'' = editedValue h event)"
      using handleTableEdit_staged[of s event h] f by simp
    show "editedValue h event = JNumber (parseInt10 h (target_value event))
      \<and> (list_all is_digit (target_value event) \<and> digits_value (target_value event) \<le> 2 ^ 53 \<longrightarrow>
           editedValue h event = JNum (digits_value (target_value event)))
      \<and> (\<not> is_white_space (hd (target_value event)) \<and> hd (target_value event) \<noteq> CHR ''+'' \<and>
          hd (target_value event) \<noteq> CHR ''-'' \<and> \<not> is_digit (hd (target_value event)) \<longrightarrow>
           editedValue h event = JNumber NaN)
      \<and> (addresses s event \<longrightarrow>
           (\<exists>v. map_of (changedRecords (snd (handleTableEdit h event s))) (dataset_id event) = Some v
              \<and> v ''Order__c'' = editedValue h event))"
      by (intro conjI ev dg nd st)
  qed
  have recompute: "(\<forall>p\<in>set ps. well_typed p) \<longrightarrow>
        (\<exists>gs. groupedData h ps = Inr gs
           \<and> (consistent_compare (localeCompare h) \<longrightarrow>
                (\<forall>g\<in>set gs. (\<forall>p\<in>set (processes g). nan_or_plain (p ''Order__c'')) \<longrightarrow>
                   sorted_wrt (key_then_name_nan_tied h) (processes g)
                   \<and> (\<forall>i<length (processes g). \<forall>j<length (processes g).
                         (processes g ! i) ''Order__c'' = JNumber NaN \<and>
                         (\<exists>n. (processes g ! j) ''Order__c'' = JNum n \<and> n < 999) \<longrightarrow> j < i))))"
  proof
    assume wt: "\<forall>p\<in>set ps. well_typed p"
    from groupedData_total[OF wt] obtain gs where gs: "groupedData h ps = Inr gs" ..
    have "consistent_compare (localeCompare h) \<longrightarrow>
                (\<forall>g\<in>set gs. (\<forall>p\<in>set (processes g). nan_or_plain (p ''Order__c'')) \<longrightarrow>
                   sorted_wrt (key_then_name_nan_tied h) (processes g)
                   \<and> (\<forall>i<length (processes g). \<forall>j<length (processes g).
                         (processes g ! i) ''Order__c'' = JNumber NaN \<and>
                         (\<exists>n. (processes g ! j) ''Order__c'' = JNum n \<and> n < 999) \<longrightarrow> j < i))"
    proof (intro impI ballI)
      fix g
      assume lc: "consistent_compare (localeCompare h)" and g: "g \<in> set gs"
        and np: "\<forall>p\<in>set (processes g). nan_or_plain (p ''Order__c'')"
      have so: "sorted_wrt (key_then_name_nan_tied h) (processes g)"
        by (rule group_sorted_nan_or_plain[OF gs g lc wt np])
      have "\<forall>i<length (processes g). \<forall>j<length (processes g).
                         (processes g ! i) ''Order__c'' = JNumber NaN \<and>
                         (\<exists>n. (processes g ! j) ''Order__c'' = JNum n \<and> n < 999) \<longrightarrow> j < i"
        using nan_after_smaller[OF so] by blast
      with so show "sorted_wrt (key_then_name_nan_tied h) (processes g)
                   \<and> (\<forall>i<length (processes g). \<forall>j<length (processes g).
                         (processes g ! i) ''Order__c'' = JNumber NaN \<and>
                         (\<exists>n. (processes g ! j) ''Order__c'' = JNum n \<and> n < 999) \<longrightarrow> j < i)"
        by (rule conjI)
    qed
    with gs show "\<exists>gs. groupedData h ps = Inr gs
           \<and> (consistent_compare (localeCompare h) \<longrightarrow>
                (\<forall>g\<in>set gs. (\<forall>p\<in>set (processes g). nan_or_plain (p ''Order__c'')) \<longrightarrow>
                   sorted_wrt (key_then_name_nan_tied h) (processes g)
                   \<and> (\<forall>i<length (processes g). \<forall>j<length (processes g).
                         (processes g ! i) ''Order__c'' = JNumber NaN \<and>
                         (\<exists>n. (processes g ! j) ''Order__c'' = JNum n \<and> n < 999) \<longrightarrow> j < i)))"
      by (intro exI[of _ gs] conjI)
  qed
  have key: "p ''Order__c'' = JNumber NaN \<or> p ''Order__c'' = Undefined \<longrightarrow> orderKey h p = Num 999"
    using falsy_key[of p h] by auto
  show ?thesis by (intro conjI edit recompute key)
qed

theorem order_input_and_malformed_orders_witness:
  "dataset_field digitEdit = ''Order__c'' \<and> target_type digitEdit \<noteq> ''checkbox''
   \<and> target_value digitEdit \<noteq> [] \<and> list_all is_digit (target_value digitEdit)
   \<and> digits_value (target_value digitEdit) \<le> 2 ^ 53
   \<and> editedValue exampleHost digitEdit = JNum 7
   \<and> dataset_field malformedEdit = ''Order__c'' \<and> target_type malformedEdit \<noteq> ''checkbox''
   \<and> target_value malformedEdit \<noteq> [] \<and> \<not> is_white_space (hd (target_value malformedEdit))
   \<and> hd (target_value malformedEdit) \<noteq> CHR ''+'' \<and> hd (target_value malformedEdit) \<noteq> CHR ''-''
   \<and> \<not> is_digit (hd (target_value malformedEdit))
   \<and> editedValue exampleHost malformedEdit = JNumber NaN
   \<and> addresses (loaded malformedRecords) malformedEdit
   \<and> (\<exists>v. map_of (changedRecords (snd (handleTableEdit exampleHost malformedEdit (loaded malformedRecords))))
            (dataset_id malformedEdit) = Some v
        \<and> v ''Order__c'' = JNumber NaN)
   \<and> list_all well_typed (processData afterOrderEdits)
   \<and> consistent_compare (localeCompare exampleHost)
   \<and> (\<exists>gs. groupedData exampleHost (processData afterOrderEdits) = Inr gs
        \<and> list_all (\<lambda>g. list_all (\<lambda>p. nan_or_plain (p ''Order__c'')) (processes g)) gs
        \<and> list_all (\<lambda>g. sorted_wrt (key_then_name_nan_tied exampleHost) (processes g)) gs
        \<and> orderSummary (Inr gs) =
            Some [[(''Z'', JNum 5), (''V'', JNum 7), (''X'', JNumber NaN), (''Y'', JNum 1000)]])"
proof -
  have d: "dataset_field digitEdit = ''Order__c''" "target_type digitEdit \<noteq> ''checkbox''"
    "target_value digitEdit \<noteq> []"
    by (simp_all add: digitEdit_def textEdit_def)
  have dd: "list_all is_digit (target_value digitEdit)" by code_simp
  have dv: "digits_value (target_value digitEdit) = 7" by code_simp
  then have db: "digits_value (target_value digitEdit) \<le> 2 ^ 53" by simp
  have f: "dataset_field malformedEdit = ''Order__c''" "target_type malformedEdit \<noteq> ''checkbox''"
    "target_value malformedEdit \<noteq> []"
    by (simp_all add: malformedEdit_def textEdit_def)
  have nw: "\<not> is_white_space (hd (target_value malformedEdit))" by code_simp
  have ns: "hd (target_value malformedEdit) \<noteq> CHR ''+''" "hd (target_value malformedEdit) \<noteq> CHR ''-''"
    by (simp_all add: malformedEdit_def textEdit_def)
  have nd: "\<not> is_digit (hd (target_value malformedEdit))" by code_simp
  have a: "addresses (loaded malformedRecords) malformedEdit"
    unfolding addresses_def Bex_def[symmetric] list_ex_iff[symmetric] by code_simp
  have wt: "list_all well_typed (processData afterOrderEdits)" by code_simp
  have ev: "orderSummary (groupedData exampleHost (processData afterOrderEdits)) =
      Some [[(''Z'', JNum 5), (''V'', JNum 7), (''X'', JNumber NaN), (''Y'', JNum 1000)]]"
    by code_simp
  note t1 = order_input_and_malformed_orders[where event = digitEdit and s = "loaded malformedRecords"
      and h = exampleHost and ps = "processData afterOrderEdits" and p = emptyObject]
  note t2 = order_input_and_malformed_orders[where event = malformedEdit and s = "loaded malformedRecords"
      and h = exampleHost and ps = "processData afterOrderEdits" and p = emptyObject]
  from t1 d have "list_all is_digit (target_value digitEdit) \<and>
      digits_value (target_value digitEdit) \<le> 2 ^ 53 \<longrightarrow>
      editedValue exampleHost digitEdit = JNum (digits_value (target_value digitEdit))" by blast
  with dd db have "editedValue exampleHost digitEdit = JNum (digits_value (target_value digitEdit))"
    by blast
  with dv have e7: "editedValue exampleHost digitEdit = JNum 7" by simp
  from t2 f have "\<not> is_white_space (hd (target_value malformedEdit)) \<and>
      hd (target_value malformedEdit) \<noteq> CHR ''+'' \<and> hd (target_value malformedEdit) \<noteq> CHR ''-'' \<and>
      \<not> is_digit (hd (target_value malformedEdit)) \<longrightarrow>
      editedValue exampleHost malformedEdit = JNumber NaN" by blast
  with nw ns nd have en: "editedValue exampleHost malformedEdit = JNumber NaN" by blast
  from t2 f have "addresses (loaded malformedRecords) malformedEdit \<longrightarrow>
      (\<exists>v. map_of (changedRecords (snd (handleTableEdit exampleHost malformedEdit
        (loaded malformedRecords)))) (dataset_id malformedEdit) = Some v
        \<and> v ''Order__c'' = editedValue exampleHost malformedEdit)" by blast
  with a have "\<exists>v. map_of (changedRecords (snd (handleTableEdit exampleHost malformedEdit
        (loaded malformedRecords)))) (dataset_id malformedEdit) = Some v
        \<and> v ''Order__c'' = editedValue exampleHost malformedEdit" by blast
  then have st: "\<exists>v. map_of (changedRecords (snd (handleTableEdit exampleHost malformedEdit
        (loaded malformedRecords)))) (dataset_id malformedEdit) = Some v \<and> v ''Order__c'' = JNumber NaN"
    by (simp only: en)
  from wt have wt': "\<forall>p\<in>set (processData afterOrderEdits). well_typed p" by (simp add: list_all_iff)
  from t2 have "(\<forall>p\<in>set (processData afterOrderEdits). well_typed p) \<longrightarrow>
        (\<exists>gs. groupedData exampleHost (processData afterOrderEdits) = Inr gs
           \<and> (consistent_compare (localeCompare exampleHost) \<longrightarrow>
                (\<forall>g\<in>set gs. (\<forall>p\<in>set (processes g). nan_or_plain (p ''Order__c'')) \<longrightarrow>
                   sorted_wrt (key_then_name_nan_tied exampleHost) (processes g)
                   \<and> (\<forall>i<length (processes g). \<forall>j<length (processes g).
                         (processes g ! i) ''Order__c'' = JNumber NaN \<and>
                         (\<exists>n. (processes g ! j) ''Order__c'' = JNum n \<and> n < 999) \<longrightarrow> j < i))))"
    by (elim conjE)
  with wt' exampleHost_consistent obtain gs where
    gs: "groupedData exampleHost (processData afterOrderEdits) = Inr gs"
    and so: "\<forall>g\<in>set gs. (\<forall>p\<in>set (processes g). nan_or_plain (p ''Order__c'')) \<longrightarrow>
        sorted_wrt (key_then_name_nan_tied exampleHost) (processes g)"
    by blast
  from ev gs have ev': "orderSummary (Inr gs) =
      Some [[(''Z'', JNum 5), (''V'', JNum 7), (''X'', JNumber NaN), (''Y'', JNum 1000)]]" by simp
  then have orders: "map (\<lambda>g. map (\<lambda>p. p ''Order__c'') (processes g)) gs =
      [[JNum 5, JNum 7, JNumber NaN, JNum 1000]]"
    by (auto simp: orderSummary_def)
  have "list_all (\<lambda>g. list_all nan_or_plain (map (\<lambda>p. p ''Order__c'') (processes g))) gs"
  proof -
    have "list_all (list_all nan_or_plain) (map (\<lambda>g. map (\<lambda>p. p ''Order__c'') (processes g)) gs)"
      unfolding orders by simp
    then show ?thesis by (simp add: list_all_iff)
  qed
  then have np: "list_all (\<lambda>g. list_all (\<lambda>p. nan_or_plain (p ''Order__c'')) (processes g)) gs"
    by (simp add: list_all_iff)
  with so have so': "list_all (\<lambda>g. sorted_wrt (key_then_name_nan_tied exampleHost) (processes g)) gs"
    by (simp add: list_all_iff)
  from gs np so' ev' have g: "\<exists>gs. groupedData exampleHost (processData afterOrderEdits) = Inr gs
        \<and> list_all (\<lambda>g. list_all (\<lambda>p. nan_or_plain (p ''Order__c'')) (processes g)) gs
        \<and> list_all (\<lambda>g. sorted_wrt (key_then_name_nan_tied exampleHost) (processes g)) gs
        \<and> orderSummary (Inr gs) =
            Some [[(''Z'', JNum 5), (''V'', JNum 7), (''X'', JNumber NaN), (''Y'', JNum 1000)]]"
    by blast
  show ?thesis by (intro conjI d dd db e7 f nw ns nd en a st wt exampleHost_consistent g)
qed

section \<open>C8: saves in flight\<close>

text \<open>
  C8, as stated, fails: with a save pending and the loading flag set, a further
  invocation of the save handler issues a second persist call.
\<close>

theorem second_save_counterexample:
  "isLoading savePending \<and> length (persistCalls savePending) = 1
   \<and> length (persistCalls (handleSaveChanges savePending)) = 2"
  by code_simp

text \<open>
  C8, amended. The save handler sets the loading flag and does not read it: whenever
  the staging map has an entry, an invocation issues one persist call with the staged
  snapshots, whether or not an earlier save is pending; when the staging map is empty
  it issues none, leaves the flag as it is and dispatches the toast that there are no
  changes.
\<close>

theorem save_ignores_loading_flag:
  "(changedRecords s \<noteq> [] \<longrightarrow>
      isLoading (handleSaveChanges s)
      \<and> persistCalls (handleSaveChanges s) = persistCalls s @ [map snd (changedRecords s)])
   \<and> (changedRecords s = [] \<longrightarrow>
      persistCalls (handleSaveChanges s) = persistCalls s
      \<and> isLoading (handleSaveChanges s) = isLoading s
      \<and> toasts (handleSaveChanges s) =
          toasts s @ [\<lparr> title = ''Info'', message = ''No changes to save'', variant = ''info'' \<rparr>])"
  by (simp add: handleSaveChanges_def showToast_def Map_values_def)

theorem save_ignores_loading_flag_witness:
  "changedRecords edited \<noteq> [] \<and> isLoading (handleSaveChanges edited)
   \<and> persistCalls (handleSaveChanges edited) = persistCalls edited @ [map snd (changedRecords edited)]
   \<and> changedRecords initial = [] \<and> persistCalls (handleSaveChanges initial) = persistCalls initial"
proof -
  have s: "stagedSummary edited =
       [(JStr ''P1'', JStr ''X'', JStr ''G9'', JNum 1), (JStr ''P3'', JStr ''P3'', JStr ''G2'', JNum 5)]"
    by code_simp
  then have ne: "changedRecords edited \<noteq> []" by (auto simp: stagedSummary_def)
  have e: "changedRecords initial = []" by (simp add: initial_def)
  from save_ignores_loading_flag[of edited] ne
  have a: "isLoading (handleSaveChanges edited)"
    "persistCalls (handleSaveChanges edited) = persistCalls edited @ [map snd (changedRecords edited)]"
    by simp_all
  from save_ignores_loading_flag[of initial] e
  have b: "persistCalls (handleSaveChanges initial) = persistCalls initial" by simp
  show ?thesis by (intro conjI ne a e b)
qed

section \<open>C9: the timestamp that is saved\<close>

text \<open>
  C9. When the timestamp in edit has the form \<^verbatim>\<open>yyyy-MM-ddTHH:mm\<close>, the save sends it
  with \<^verbatim>\<open>:00\<close> appended; when it is empty, the save sends \<^verbatim>\<open>null\<close>. The flag that is sent
  is the flag in edit.
\<close>

theorem timestamp_seconds_appended:
  "(is_datetime_local (editSerialEngineTimestamp s) \<longrightarrow>
      request_serialEngineTimestampIso (handleSave_request s) =
        JStr (editSerialEngineTimestamp s @ '':00''))
   \<and> (editSerialEngineTimestamp s = [] \<longrightarrow>
      request_serialEngineTimestampIso (handleSave_request s) = Null)
   \<and> request_serialEngineOn (handleSave_request s) = editSerialEngineOn s"
proof -
  have len: "length (editSerialEngineTimestamp s) = 16" if "is_datetime_local (editSerialEngineTimestamp s)"
    using matches_pattern_length[of "''dddd-dd-ddTdd:dd''" "editSerialEngineTimestamp s"] that
    by (simp add: is_datetime_local_def)
  have a: "is_datetime_local (editSerialEngineTimestamp s) \<longrightarrow>
      request_serialEngineTimestampIso (handleSave_request s) =
        JStr (editSerialEngineTimestamp s @ '':00'')"
  proof
    assume f: "is_datetime_local (editSerialEngineTimestamp s)"
    from len[OF f] have "editSerialEngineTimestamp s \<noteq> []" by auto
    with len[OF f] show "request_serialEngineTimestampIso (handleSave_request s) =
        JStr (editSerialEngineTimestamp s @ '':00'')"
      by (simp add: handleSave_request_def handleSave_tsIso_def Let_def)
  qed
  have b: "editSerialEngineTimestamp s = [] \<longrightarrow>
      request_serialEngineTimestampIso (handleSave_request s) = Null"
    by (simp add: handleSave_request_def handleSave_tsIso_def)
  have c: "request_serialEngineOn (handleSave_request s) = editSerialEngineOn s"
    by (simp add: handleSave_request_def)
  show ?thesis by (intro conjI a b c)
qed

theorem timestamp_seconds_appended_witness:
  "is_datetime_local ''2024-05-06T07:08''
   \<and> request_serialEngineTimestampIso
        (handleSave_request (handleTimestampChange ''2024-05-06T07:08'' pv_initial)) =
       JStr ''2024-05-06T07:08:00''
   \<and> editSerialEngineTimestamp pv_initial = []
   \<and> request_serialEngineTimestampIso (handleSave_request pv_initial) = Null"
proof -
  have f: "is_datetime_local ''2024-05-06T07:08''" by code_simp
  have e: "editSerialEngineTimestamp (handleTimestampChange ''2024-05-06T07:08'' pv_initial) =
      ''2024-05-06T07:08''" by (simp add: handleTimestampChange_def)
  have z: "editSerialEngineTimestamp pv_initial = []" by (simp add: pv_initial_def)
  from timestamp_seconds_appended[of "handleTimestampChange ''2024-05-06T07:08'' pv_initial"] f e
  have a: "request_serialEngineTimestampIso
        (handleSave_request (handleTimestampChange ''2024-05-06T07:08'' pv_initial)) =
       JStr ''2024-05-06T07:08:00''" by simp
  from timestamp_seconds_appended[of pv_initial] z
  have b: "request_serialEngineTimestampIso (handleSave_request pv_initial) = Null" by simp
  show ?thesis by (intro conjI f a z b)
qed

section \<open>C10: what an edit leaves alone\<close>

text \<open>
  C10. An edit keeps the number of working records; every working record whose
  identifier is not the one the edit addresses is unchanged in all fields; a record the
  edit addresses becomes the updated record; and the baseline taken at load time is
  unchanged.
\<close>

theorem edit_frame:
  "length (processData (snd (handleTableEdit h event s))) = length (processData s)
   \<and> (\<forall>i < length (processData s).
         \<not> strict_eq ((processData s ! i) ''Id'') (dataset_id event) \<longrightarrow>
         processData (snd (handleTableEdit h event s)) ! i = processData s ! i)
   \<and> (\<forall>i < length (processData s).
         strict_eq ((processData s ! i) ''Id'') (dataset_id event) \<longrightarrow>
         processData (snd (handleTableEdit h event s)) ! i =
           updatedRecord (dataset_field event) (editedValue h event) (processData s ! i))
   \<and> originalData (snd (handleTableEdit h event s)) = originalData s"
  by (simp add: handleTableEdit_frame)

theorem edit_frame_witness:
  "strict_eq ((processData (loaded scenarioRecords) ! 0) ''Id'') (dataset_id (textEdit ''P1'' ''Name'' ''X''))
   \<and> \<not> strict_eq ((processData (loaded scenarioRecords) ! 1) ''Id'') (dataset_id (textEdit ''P1'' ''Name'' ''X''))
   \<and> (processData (snd (handleTableEdit exampleHost (textEdit ''P1'' ''Name'' ''X'') (loaded scenarioRecords))) ! 0)
        ''Name'' = JStr ''X''
   \<and> processData (snd (handleTableEdit exampleHost (textEdit ''P1'' ''Name'' ''X'') (loaded scenarioRecords))) ! 1
       = processData (loaded scenarioRecords) ! 1
   \<and> originalData (snd (handleTableEdit exampleHost (textEdit ''P1'' ''Name'' ''X'') (loaded scenarioRecords)))
       = originalData (loaded scenarioRecords)"
proof -
  have l: "length (processData (loaded scenarioRecords)) = 3" by code_simp
  have m: "strict_eq ((processData (loaded scenarioRecords) ! 0) ''Id'') (dataset_id (textEdit ''P1'' ''Name'' ''X''))"
    by code_simp
  have n: "\<not> strict_eq ((processData (loaded scenarioRecords) ! 1) ''Id'') (dataset_id (textEdit ''P1'' ''Name'' ''X''))"
    by code_simp
  note t = edit_frame[of exampleHost "textEdit ''P1'' ''Name'' ''X''" "loaded scenarioRecords"]
  from t l n have b: "processData (snd (handleTableEdit exampleHost (textEdit ''P1'' ''Name'' ''X'') (loaded scenarioRecords))) ! 1
       = processData (loaded scenarioRecords) ! 1" by simp
  from t l m have "processData (snd (handleTableEdit exampleHost (textEdit ''P1'' ''Name'' ''X'') (loaded scenarioRecords))) ! 0
       = updatedRecord (dataset_field (textEdit ''P1'' ''Name'' ''X'')) (editedValue exampleHost (textEdit ''P1'' ''Name'' ''X''))
           (processData (loaded scenarioRecords) ! 0)" by simp
  then have a: "(processData (snd (handleTableEdit exampleHost (textEdit ''P1'' ''Name'' ''X'') (loaded scenarioRecords))) ! 0)
        ''Name'' = JStr ''X''"
    by (simp add: updatedRecord_def textEdit_def editedValue_def strict_eq_def)
  from t have c: "originalData (snd (handleTableEdit exampleHost (textEdit ''P1'' ''Name'' ''X'') (loaded scenarioRecords)))
       = originalData (loaded scenarioRecords)" by simp
  show ?thesis by (intro conjI m n a b c)
qed

end
